theory Spec2Isabelle
  imports Main "HOL-Library.AList" "HOL-Library.Multiset"
begin

unbundle bit_operations_syntax

section \<open>MultiStage2.py: the multistage table builder\<close>

text \<open>
  Python integers are unbounded and are modelled as \<open>int\<close>; \<open>len\<close> is \<open>length\<close>
  (a \<open>nat\<close>) and is converted with \<open>int\<close> where it enters Python arithmetic.
  A raised exception is the \<open>Inl\<close> branch of a sum.
\<close>

datatype error =
    OverflowError
  | ValueError
  | IndexError
  | AttributeError
  | AssertionError
  | NameError

subsection \<open>Built-ins used by the script\<close>

text \<open>\<open>min(table)\<close> and \<open>max(table)\<close>: ValueError on an empty sequence.\<close>

definition py_min :: "int list \<Rightarrow> error + int" where
  "py_min table = (case table of [] \<Rightarrow> Inl ValueError | x # xs \<Rightarrow> Inr (fold min xs x))"

definition py_max :: "int list \<Rightarrow> error + int" where
  "py_max table = (case table of [] \<Rightarrow> Inl ValueError | x # xs \<Rightarrow> Inr (fold max xs x))"

subsection \<open>\<open>get_type_size\<close>\<close>

definition type_size :: "(string \<times> int) list" where
  "type_size = [(''uschar'', 1), (''pcre_uint16'', 2), (''pcre_uint32'', 4),
                (''signed char'', 1), (''pcre_int16'', 2), (''pcre_int32'', 4)]"

definition limits :: "(int \<times> int) list" where
  "limits = [(0, 255), (0, 65535), (0, 4294967295),
             (-128, 127), (-32768, 32767), (-2147483648, 2147483647)]"

text \<open>
  The \<open>for num, (minlimit, maxlimit) in enumerate(limits)\<close> loop with its \<open>else\<close>
  branch: the first pair of limits that fits returns, running off the end raises.
\<close>

fun type_loop :: "int \<Rightarrow> int \<Rightarrow> nat \<Rightarrow> (int \<times> int) list \<Rightarrow> error + (string \<times> int)" where
  "type_loop minval maxval num [] = Inl OverflowError"
| "type_loop minval maxval num ((minlimit, maxlimit) # rest) =
     (if minlimit \<le> minval \<and> maxval \<le> maxlimit then Inr (type_size ! num)
      else type_loop minval maxval (Suc num) rest)"

definition get_type_size :: "int list \<Rightarrow> error + (string \<times> int)" where
  "get_type_size table =
     (case py_min table of Inl e \<Rightarrow> Inl e
      | Inr minval \<Rightarrow>
     (case py_max table of Inl e \<Rightarrow> Inl e
      | Inr maxval \<Rightarrow> type_loop minval maxval 0 limits))"

text \<open>The candidate list as the specification reads it: each kind with its limits, in order.\<close>

definition candidates :: "((string \<times> int) \<times> (int \<times> int)) list" where
  "candidates = zip type_size limits"

definition covers :: "int list \<Rightarrow> (string \<times> int) \<times> (int \<times> int) \<Rightarrow> bool" where
  "covers table c = (fst (snd c) \<le> Min (set table) \<and> Max (set table) \<le> snd (snd c))"

definition signed_kinds :: "(string \<times> int) set" where
  "signed_kinds = {(''signed char'', 1), (''pcre_int16'', 2), (''pcre_int32'', 4)}"

subsection \<open>Sequences, indexing and formatting\<close>

text \<open>
  \<open>xs[i]\<close>: a negative index counts from the end, an index out of range raises
  IndexError.
\<close>

definition getitem :: "'a list \<Rightarrow> int \<Rightarrow> error + 'a" where
  "getitem xs i =
     (if 0 \<le> i \<and> i < int (length xs) then Inr (xs ! nat i)
      else if i < 0 \<and> - int (length xs) \<le> i then Inr (xs ! nat (i + int (length xs)))
      else Inl IndexError)"

text \<open>\<open>map(f, xs)\<close> for an \<open>f\<close> that may raise: the first exception ends the map.\<close>

fun map_err :: "('a \<Rightarrow> error + 'b) \<Rightarrow> 'a list \<Rightarrow> error + 'b list" where
  "map_err f [] = Inr []"
| "map_err f (x # xs) =
     (case f x of Inl e \<Rightarrow> Inl e
      | Inr y \<Rightarrow> (case map_err f xs of Inl e \<Rightarrow> Inl e | Inr ys \<Rightarrow> Inr (y # ys)))"

text \<open>
  \<open>range(stop)\<close>, \<open>range(start, stop)\<close> and \<open>range(start, stop, step)\<close>; a zero step
  raises ValueError, and a range whose step points away from \<open>stop\<close> is empty.
\<close>

definition range1 :: "int \<Rightarrow> int list" where
  "range1 stop = map int [0..<nat stop]"

definition range2 :: "int \<Rightarrow> int \<Rightarrow> int list" where
  "range2 start stop = map (\<lambda>k. start + int k) [0..<nat (stop - start)]"

definition range3 :: "int \<Rightarrow> int \<Rightarrow> int \<Rightarrow> error + int list" where
  "range3 start stop step =
     (if step = 0 then Inl ValueError
      else if 0 < step
        then Inr (map (\<lambda>k. start + int k * step) [0..<nat ((stop - start + step - 1) div step)])
        else Inr (map (\<lambda>k. start + int k * step)
                    [0..<nat ((start - stop - step - 1) div (- step))]))"

text \<open>\<open>'%d' % i\<close> and \<open>'%<w>d' % i\<close> (right-justified in at least \<open>w\<close> columns).\<close>

fun digits :: "nat \<Rightarrow> string" where
  "digits n = (if n < 10 then [''0123456789'' ! n]
               else digits (n div 10) @ [''0123456789'' ! (n mod 10)])"

definition str_int :: "int \<Rightarrow> string" where
  "str_int i = (if i < 0 then CHR ''-'' # digits (nat (- i)) else digits (nat i))"

definition fmt_d :: "nat \<Rightarrow> int \<Rightarrow> string" where
  "fmt_d w i = replicate (w - length (str_int i)) CHR '' '' @ str_int i"

subsection \<open>\<open>get_record_size_struct\<close> and \<open>test_record_size\<close>\<close>

definition struct_header :: string where
  "struct_header =
     ''/* When recompiling tables with a new Unicode version,\<newline>'' @
     ''please check types in the structure definition from pcre_internal.h:\<newline>typedef struct {\<newline>''"

text \<open>The body of \<open>for i in range(len(records[0]))\<close>, over the remaining indices.\<close>

fun record_loop :: "int list list \<Rightarrow> int list \<Rightarrow> int \<Rightarrow> string \<Rightarrow> error + (int \<times> string)" where
  "record_loop records [] size' structure = Inr (size', structure)"
| "record_loop records (i # is) size' structure =
     (case map_err (\<lambda>record. getitem record i) records of Inl e \<Rightarrow> Inl e
      | Inr record_slice \<Rightarrow>
     (case get_type_size record_slice of Inl e \<Rightarrow> Inl e
      | Inr (slice_type, slice_size) \<Rightarrow>
          record_loop records is
            (((size' + slice_size - 1) AND (- slice_size)) + slice_size)
            (structure @ slice_type @ '' property_'' @ str_int i @ '';\<newline>'')))"

definition get_record_size_struct :: "int list list \<Rightarrow> error + (int \<times> string)" where
  "get_record_size_struct records =
     (case getitem records 0 of Inl e \<Rightarrow> Inl e
      | Inr record0 \<Rightarrow>
     (case record_loop records (range1 (int (length record0))) 0 struct_header of Inl e \<Rightarrow> Inl e
      | Inr (size', structure) \<Rightarrow>
     (case map_err (\<lambda>record. getitem record 0) records of Inl e \<Rightarrow> Inl e
      | Inr record_slice \<Rightarrow>
     (case get_type_size record_slice of Inl e \<Rightarrow> Inl e
      | Inr (slice_type, slice_size) \<Rightarrow>
          Inr ((size' + slice_size - 1) AND (- slice_size),
               structure @ ''} ucd_record; */\<newline>\<newline>'')))))"

definition tests :: "(int list list \<times> int) list" where
  "tests =
     [([[3], [6], [6], [1]], 1),
      ([[300], [600], [600], [100]], 2),
      ([[25, 3], [6, 6], [34, 6], [68, 1]], 2),
      ([[300, 3], [6, 6], [340, 6], [690, 1]], 4),
      ([[3, 300], [6, 6], [6, 340], [1, 690]], 4),
      ([[300, 300], [6, 6], [6, 340], [1, 690]], 4),
      ([[3, 100000], [6, 6], [6, 123456], [1, 690]], 8),
      ([[100000, 300], [6, 6], [123456, 6], [1, 690]], 8)]"

text \<open>\<open>for test in tests\<close>: a failed \<open>assert\<close> raises AssertionError.\<close>

fun test_loop :: "(int list list \<times> int) list \<Rightarrow> error + unit" where
  "test_loop [] = Inr ()"
| "test_loop (test # rest) =
     (case get_record_size_struct (fst test) of Inl e \<Rightarrow> Inl e
      | Inr (size', struct) \<Rightarrow>
          if size' = snd test then test_loop rest else Inl AssertionError)"

definition test_record_size :: "error + unit" where
  "test_record_size = test_loop tests"

text \<open>
  The layout as the specification words it: a field of width \<open>w\<close> goes to the offset
  \<open>(offset + w - 1) & ~(w - 1)\<close>, the fields are walked in tuple order, and the total is
  padded once more with the width of the first field.
\<close>

definition pad :: "int \<Rightarrow> int \<Rightarrow> int" where
  "pad offset w = (offset + w - 1) AND NOT (w - 1)"

definition layout :: "int list \<Rightarrow> int" where
  "layout widths = pad (fold (\<lambda>w offset. pad offset w + w) widths 0) (hd widths)"

definition column :: "nat \<Rightarrow> int list list \<Rightarrow> int list" where
  "column i records = map (\<lambda>record. record ! i) records"

subsection \<open>Dictionaries and slices\<close>

text \<open>
  A dictionary is an association list with distinct keys: \<open>d.get(k)\<close> is \<open>map_of d k\<close>,
  \<open>d[k] = v\<close> is \<open>AList.update k v d\<close> (a new key goes to the end, an old key keeps its
  place) and \<open>len(d)\<close> is \<open>length d\<close>. The order in which Python enumerates the keys of
  a dictionary is not that of the list; where the script enumerates one, the order is a
  parameter.
\<close>

type_synonym ('k, 'v) dict = "('k \<times> 'v) list"

text \<open>\<open>xs[lo:hi]\<close>: both bounds are taken from the end when negative, then clamped.\<close>

definition slice :: "'a list \<Rightarrow> int \<Rightarrow> int \<Rightarrow> 'a list" where
  "slice xs lo hi =
     (let n = int (length xs);
          l = (if lo < 0 then max 0 (lo + n) else min lo n);
          h = (if hi < 0 then max 0 (hi + n) else min hi n)
      in take (nat (h - l)) (drop (nat l) xs))"

text \<open>
  \<open>zip(*tables)\<close>: the tuples of the values at each position, as many as the shortest
  table has; no table gives no tuple.
\<close>

definition zip_star :: "'a list list \<Rightarrow> 'a list list" where
  "zip_star tables =
     (if tables = [] then []
      else map (\<lambda>i. map (\<lambda>t. t ! i) tables) [0..<min_list (map length tables)])"

subsection \<open>\<open>compress_table\<close>\<close>

text \<open>
  The body of \<open>for i in range(0, len(table), block_size)\<close> over the remaining indices;
  the state is the dictionary \<open>blocks\<close> and the lists \<open>stage1\<close> and \<open>stage2\<close>.
\<close>

fun compress_loop ::
  "'a list \<Rightarrow> int \<Rightarrow> int list \<Rightarrow> ('a list, int) dict \<times> int list \<times> 'a list
     \<Rightarrow> ('a list, int) dict \<times> int list \<times> 'a list" where
  "compress_loop table block_size [] st = st"
| "compress_loop table block_size (i # is) (blocks, stage1, stage2) =
     (let block = slice table i (i + block_size) in
      case map_of blocks block of
        None \<Rightarrow>
          (let start = int (length stage2) div block_size in
           compress_loop table block_size is
             (AList.update block start blocks, stage1 @ [start], stage2 @ block))
      | Some start \<Rightarrow>
          compress_loop table block_size is (blocks, stage1 @ [start], stage2))"

definition compress_table :: "'a list \<Rightarrow> int \<Rightarrow> error + (int list \<times> 'a list)" where
  "compress_table table block_size =
     (case range3 0 (int (length table)) block_size of Inl e \<Rightarrow> Inl e
      | Inr is \<Rightarrow>
          (case compress_loop table block_size is ([], [], []) of
             (blocks, stage1, stage2) \<Rightarrow> Inr (stage1, stage2)))"

subsection \<open>\<open>combine_tables\<close>\<close>

text \<open>The body of \<open>for t in zip(*tables)\<close> over the remaining tuples.\<close>

fun combine_loop ::
  "'a list list \<Rightarrow> ('a list, int) dict \<Rightarrow> int list \<Rightarrow> int list \<times> ('a list, int) dict" where
  "combine_loop [] records index = (index, records)"
| "combine_loop (t # ts) records index =
     (case map_of records t of
        None \<Rightarrow>
          (let i = int (length records) in
           combine_loop ts (AList.update t i records) (index @ [i]))
      | Some i \<Rightarrow> combine_loop ts records (index @ [i]))"

definition combine_tables :: "'a list list \<Rightarrow> int list \<times> ('a list, int) dict" where
  "combine_tables tables = combine_loop (zip_star tables) [] []"

text \<open>
  The vocabulary of the specification: the blocks of a table, the distinct elements of a
  list in the order of their first occurrence, and the position of an element in a list.
\<close>

definition blocks_of :: "nat \<Rightarrow> 'a list \<Rightarrow> 'a list list" where
  "blocks_of B table = map (\<lambda>k. take B (drop (k * B) table)) [0..<length table div B]"

primrec first_seen :: "'a list \<Rightarrow> 'a list" where
  "first_seen [] = []"
| "first_seen (x # xs) = x # filter (\<lambda>y. y \<noteq> x) (first_seen xs)"

primrec index_of :: "'a \<Rightarrow> 'a list \<Rightarrow> nat" where
  "index_of x [] = 0"
| "index_of x (y # ys) = (if x = y then 0 else Suc (index_of x ys))"

text \<open>The dictionary that numbers the elements of a list from 0, in their order.\<close>

definition numbered :: "'a list \<Rightarrow> ('a, int) dict" where
  "numbered xs = zip xs (map int [0..<length xs])"

subsection \<open>\<open>get_tables_size\<close> and the search for the block size\<close>

fun tables_loop :: "int list list \<Rightarrow> int \<Rightarrow> error + int" where
  "tables_loop [] total_size = Inr total_size"
| "tables_loop (table # rest) total_size =
     (case get_type_size table of Inl e \<Rightarrow> Inl e
      | Inr (type, size') \<Rightarrow> tables_loop rest (total_size + size' * int (length table)))"

definition get_tables_size :: "int list list \<Rightarrow> error + int" where
  "get_tables_size tables = tables_loop tables 0"

text \<open>\<open>[2 ** i for i in range(5,10)]\<close>\<close>

definition block_sizes :: "int list" where
  "block_sizes = map (\<lambda>i. 2 ^ nat i) (range2 5 10)"

text \<open>
  The first three statements of the loop body: the size of the tables for one block size,
  with the stages it was computed from. \<open>n_records\<close> is \<open>len(records)\<close>.
\<close>

definition evaluate :: "int list \<Rightarrow> int \<Rightarrow> int \<Rightarrow> int \<Rightarrow> error + (int \<times> int list \<times> int list)" where
  "evaluate table n_records record_size block_size =
     (let size' = n_records * record_size in
      case compress_table table block_size of Inl e \<Rightarrow> Inl e
      | Inr (stage1, stage2) \<Rightarrow>
     (case get_tables_size [stage1, stage2] of Inl e \<Rightarrow> Inl e
      | Inr tables_size \<Rightarrow> Inr (size' + tables_size, stage1, stage2)))"

text \<open>
  The loop \<open>for block_size in ...\<close>; the state is \<open>min_size\<close> and, once they are bound,
  \<open>min_stage1\<close>, \<open>min_stage2\<close> and \<open>min_block_size\<close>.
\<close>

fun optimize_loop ::
  "int list \<Rightarrow> int \<Rightarrow> int \<Rightarrow> int list \<Rightarrow> int \<times> (int list \<times> int list \<times> int) option
     \<Rightarrow> error + (int \<times> (int list \<times> int list \<times> int) option)" where
  "optimize_loop table n_records record_size [] st = Inr st"
| "optimize_loop table n_records record_size (block_size # rest) (min_size, best) =
     (case evaluate table n_records record_size block_size of Inl e \<Rightarrow> Inl e
      | Inr (size', stage1, stage2) \<Rightarrow>
          if size' < min_size
          then optimize_loop table n_records record_size rest
                 (size', Some (stage1, stage2, block_size))
          else optimize_loop table n_records record_size rest (min_size, best))"

text \<open>
  The search as the script runs it, from \<open>min_size = sys.maxint\<close> (a parameter: it depends
  on the platform); the script then reads \<open>min_block_size\<close>, which is unbound (NameError)
  when no size was below \<open>sys.maxint\<close>. The result is \<open>min_size\<close>, \<open>min_stage1\<close>,
  \<open>min_stage2\<close> and \<open>min_block_size\<close>.
\<close>

definition optimum :: "int \<Rightarrow> int list \<Rightarrow> int \<Rightarrow> int \<Rightarrow> error + (int \<times> int list \<times> int list \<times> int)" where
  "optimum maxint table n_records record_size =
     (case optimize_loop table n_records record_size block_sizes (maxint, None) of
        Inl e \<Rightarrow> Inl e
      | Inr (min_size, None) \<Rightarrow> Inl NameError
      | Inr (min_size, Some (min_stage1, min_stage2, min_block_size)) \<Rightarrow>
          Inr (min_size, min_stage1, min_stage2, min_block_size))"

subsection \<open>\<open>read_table\<close>\<close>

definition MAX_UNICODE :: nat where
  "MAX_UNICODE = 0x110000"

text \<open>\<open>xs[i] = v\<close>: as for reading, an index out of range raises IndexError.\<close>

definition setitem :: "'a list \<Rightarrow> int \<Rightarrow> 'a \<Rightarrow> error + 'a list" where
  "setitem xs i v =
     (if 0 \<le> i \<and> i < int (length xs) then Inr (xs[nat i := v])
      else if i < 0 \<and> - int (length xs) \<le> i then Inr (xs[nat (i + int (length xs)) := v])
      else Inl IndexError)"

text \<open>
  \<open>re.sub(r'#.*', '', line)\<close>: every \<open>#\<close> is removed with what follows it up to, and
  without, the next newline. The flag says whether a comment is being skipped.
\<close>

fun sub_comment :: "bool \<Rightarrow> string \<Rightarrow> string" where
  "sub_comment skipping [] = []"
| "sub_comment skipping (c # cs) =
     (if c = CHR 0x0A then c # sub_comment False cs
      else if skipping \<or> c = CHR ''#'' then sub_comment True cs
      else c # sub_comment False cs)"

text \<open>\<open>s.split(sep)\<close> for a separator of one character.\<close>

fun split :: "char \<Rightarrow> string \<Rightarrow> string list" where
  "split sep [] = [[]]"
| "split sep (c # cs) =
     (if c = sep then [] # split sep cs
      else (case split sep cs of [] \<Rightarrow> [[c]] | w # ws \<Rightarrow> (c # w) # ws))"

text \<open>\<open>string.strip\<close> removes the characters of \<open>string.whitespace\<close> at both ends.\<close>

definition is_space :: "char \<Rightarrow> bool" where
  "is_space c = (c \<in> set [CHR 0x09, CHR 0x0A, CHR 0x0B, CHR 0x0C, CHR 0x0D, CHR 0x20])"

definition strip :: "string \<Rightarrow> string" where
  "strip s = rev (dropWhile is_space (rev (dropWhile is_space s)))"

text \<open>\<open>int(s, 16)\<close> for a string of hexadecimal digits.\<close>

definition is_hex :: "char \<Rightarrow> bool" where
  "is_hex c = (c \<in> set ''0123456789abcdefABCDEF'')"

definition hex_digit :: "char \<Rightarrow> int" where
  "hex_digit c =
     (if c \<in> set ''0123456789'' then int (index_of c ''0123456789'')
      else if c \<in> set ''abcdef'' then 10 + int (index_of c ''abcdef'')
      else 10 + int (index_of c ''ABCDEF''))"

definition int16 :: "string \<Rightarrow> int" where
  "int16 s = fold (\<lambda>c n. n * 16 + hex_digit c) s 0"

text \<open>
  \<open>re.match(r'([0-9a-fA-F]+)(\.\.([0-9a-fA-F]+))?$', s)\<close>: the groups 1 and 3 of the
  match, if there is one; \<open>$\<close> matches at the end and before a newline that ends the string.
\<close>

definition at_end :: "string \<Rightarrow> bool" where
  "at_end s = (s = [] \<or> s = [CHR 0x0A])"

definition re_match :: "string \<Rightarrow> (string \<times> string option) option" where
  "re_match s =
     (let g1 = takeWhile is_hex s; r1 = dropWhile is_hex s in
      if g1 = [] then None
      else (case r1 of
              c1 # c2 # r2 \<Rightarrow>
                (let g3 = takeWhile is_hex r2; r3 = dropWhile is_hex r2 in
                 if c1 = CHR ''.'' \<and> c2 = CHR ''.'' \<and> g3 \<noteq> [] \<and> at_end r3
                 then Some (g1, Some g3)
                 else None)
            | _ \<Rightarrow> if at_end r1 then Some (g1, None) else None))"

text \<open>
  One line of the file up to the inner loop: nothing for a line that is skipped, else the
  first and the last code point and the value.
\<close>

definition parse_line :: "(string list \<Rightarrow> error + 'v) \<Rightarrow> string \<Rightarrow> error + (int \<times> int \<times> 'v) option" where
  "parse_line get_value line =
     (let chardata = map strip (split CHR '';'' (sub_comment False line)) in
      if length chardata \<le> 1 then Inr None
      else (case get_value chardata of Inl e \<Rightarrow> Inl e
            | Inr value \<Rightarrow>
           (case re_match (chardata ! 0) of None \<Rightarrow> Inl AttributeError
            | Some (g1, g3) \<Rightarrow>
                (let char = int16 g1;
                     last' = (case g3 of None \<Rightarrow> char | Some g \<Rightarrow> int16 g)
                 in Inr (Some (char, last', value))))))"

text \<open>
  \<open>for i in range(char, last + 1): table[i] = value\<close>, over the remaining indices. The
  list of the indices has no bound on its length here; Python builds it before the first
  assignment, so that a range too long for the memory fails there and not at an index.
\<close>

fun assign_loop :: "'v list \<Rightarrow> int list \<Rightarrow> 'v \<Rightarrow> error + 'v list" where
  "assign_loop table [] value = Inr table"
| "assign_loop table (i # is) value =
     (case setitem table i value of Inl e \<Rightarrow> Inl e
      | Inr table' \<Rightarrow> assign_loop table' is value)"

text \<open>\<open>for line in file\<close>; the file is the list of its lines.\<close>

fun read_loop :: "(string list \<Rightarrow> error + 'v) \<Rightarrow> string list \<Rightarrow> 'v list \<Rightarrow> error + 'v list" where
  "read_loop get_value [] table = Inr table"
| "read_loop get_value (line # rest) table =
     (case parse_line get_value line of Inl e \<Rightarrow> Inl e
      | Inr None \<Rightarrow> read_loop get_value rest table
      | Inr (Some (char, last', value)) \<Rightarrow>
          (case assign_loop table (range2 char (last' + 1)) value of Inl e \<Rightarrow> Inl e
           | Inr table' \<Rightarrow> read_loop get_value rest table'))"

definition read_table :: "string list \<Rightarrow> (string list \<Rightarrow> error + 'v) \<Rightarrow> 'v \<Rightarrow> error + 'v list" where
  "read_table file get_value default_value =
     read_loop get_value file (replicate MAX_UNICODE default_value)"

text \<open>
  The assignments of a file in input order, and the value that the last assignment
  covering a code point gives it, or the default when there is none.
\<close>

definition assignments :: "(int \<times> int \<times> 'v) option list \<Rightarrow> (int \<times> int \<times> 'v) list" where
  "assignments parsed = concat (map (\<lambda>p. case p of None \<Rightarrow> [] | Some a \<Rightarrow> [a]) parsed)"

definition covering :: "int \<Rightarrow> int \<times> int \<times> 'v \<Rightarrow> bool" where
  "covering c a = (fst a \<le> c \<and> c \<le> fst (snd a))"

definition last_write :: "(int \<times> int \<times> 'v) list \<Rightarrow> 'v \<Rightarrow> int \<Rightarrow> 'v" where
  "last_write asgs default_value c =
     (case find (covering c) (rev asgs) of None \<Rightarrow> default_value | Some a \<Rightarrow> snd (snd a))"

subsection \<open>\<open>print_records\<close> and the script\<close>

text \<open>
  \<open>print_records\<close>: the lines that it prints. \<open>items\<close> is
  \<open>zip(records.keys(), records.values())\<close>, the items of the dictionary in the order in
  which Python enumerates it; \<open>sort\<close> with the key \<open>x[1]\<close> is stable.
\<close>

definition print_records :: "(int list \<times> int) list \<Rightarrow> int \<Rightarrow> string list" where
  "print_records items record_size =
     (''const ucd_record _pcre_ucd_records[] = { '' @ ''/* ''
        @ str_int (int (length items) * record_size) @ '' bytes, record size ''
        @ str_int record_size @ '' */'')
     # map (\<lambda>(i, record).
              ''  {'' @ concat (map (\<lambda>v. fmt_d 6 v @ '', '') (fst record)) @ ''}, /* ''
                @ fmt_d 3 (int i) @ '' */'')
         (enumerate 0 (sort_key snd items))
     @ [''};\<newline>'']"

text \<open>
  The script from \<open>test_record_size()\<close> to the search for the block size, and the records
  it prints. Its inputs are the three tables that \<open>read_table\<close> returned, \<open>sys.maxint\<close>
  and the enumeration \<open>enum\<close> of the items of a dictionary; its result is the text of the
  structure, the printed records, \<open>min_stage1\<close>, \<open>min_stage2\<close>, \<open>min_block_size\<close> and
  \<open>min_size\<close>. The printing of the two stages by \<open>print_table\<close> is not modelled.
\<close>

definition main_script ::
  "int \<Rightarrow> ((int list \<times> int) list \<Rightarrow> (int list \<times> int) list) \<Rightarrow> int list \<Rightarrow> int list \<Rightarrow> int list
     \<Rightarrow> error + (string \<times> string list \<times> int list \<times> int list \<times> int \<times> int)" where
  "main_script maxint enum script category other_case =
     (case test_record_size of Inl e \<Rightarrow> Inl e
      | Inr u \<Rightarrow>
     (case combine_tables [script, category, other_case] of
        (table, records) \<Rightarrow>
     (case get_record_size_struct (map fst (enum records)) of Inl e \<Rightarrow> Inl e
      | Inr (record_size, record_struct) \<Rightarrow>
     (case optimum maxint table (int (length records)) record_size of Inl e \<Rightarrow> Inl e
      | Inr (min_size, min_stage1, min_stage2, min_block_size) \<Rightarrow>
          Inr (record_struct, print_records (enum records) record_size,
               min_stage1, min_stage2, min_block_size, min_size)))))"

section \<open>Properties\<close>

subsection \<open>The type-width resolver\<close>

lemma fold_min_Min: "fold min xs (x::int) = Min (set (x # xs))"
proof (induction xs arbitrary: x)
  case Nil
  show ?case by simp
next
  case (Cons y ys)
  have "fold min (y # ys) x = Min (set (min y x # ys))"
    using Cons.IH [of "min y x"] by simp
  also have "\<dots> = Min (insert y (insert x (set ys)))"
    by (cases "ys = []") (simp_all add: min.commute min.left_commute)
  finally show ?case by (simp add: insert_commute)
qed

lemma fold_max_Max: "fold max xs (x::int) = Max (set (x # xs))"
proof (induction xs arbitrary: x)
  case Nil
  show ?case by simp
next
  case (Cons y ys)
  have "fold max (y # ys) x = Max (set (max y x # ys))"
    using Cons.IH [of "max y x"] by simp
  also have "\<dots> = Max (insert y (insert x (set ys)))"
    by (cases "ys = []") (simp_all add: max.commute max.left_commute)
  finally show ?case by (simp add: insert_commute)
qed

lemma py_min_Min: "table \<noteq> [] \<Longrightarrow> py_min table = Inr (Min (set table))"
  by (cases table) (simp_all add: py_min_def fold_min_Min del: set_simps)

lemma py_max_Max: "table \<noteq> [] \<Longrightarrow> py_max table = Inr (Max (set table))"
  by (cases table) (simp_all add: py_max_def fold_max_Max del: set_simps)

lemma get_type_size_loop:
  "table \<noteq> [] \<Longrightarrow>
   get_type_size table = type_loop (Min (set table)) (Max (set table)) 0 limits"
  by (simp add: get_type_size_def py_min_Min py_max_Max)

lemma type_loop_find:
  "type_loop m M 0 limits =
     (case find (\<lambda>c. fst (snd c) \<le> m \<and> M \<le> snd (snd c)) candidates of
        None \<Rightarrow> Inl OverflowError | Some c \<Rightarrow> Inr (fst c))"
  by (simp add: limits_def candidates_def type_size_def)

lemma type_loop_small: "0 \<le> m \<Longrightarrow> M \<le> 130 \<Longrightarrow> type_loop m M 0 limits = Inr (''uschar'', 1)"
  by (simp add: limits_def type_size_def)

lemma type_loop_negative:
  "m \<le> - 5 \<Longrightarrow>
   (if - 2147483648 \<le> m \<and> M \<le> 2147483647
    then \<exists>k\<in>signed_kinds. type_loop m M 0 limits = Inr k
    else type_loop m M 0 limits = Inl OverflowError)"
  by (simp add: limits_def type_size_def signed_kinds_def)

lemma type_loop_overflow:
  "type_loop m M 0 limits = Inl OverflowError \<longleftrightarrow>
     (\<forall>c\<in>set candidates. \<not> (fst (snd c) \<le> m \<and> M \<le> snd (snd c)))"
  by (simp add: limits_def type_size_def candidates_def)

lemma no_candidate_iff:
  "m \<le> M \<Longrightarrow>
   (\<forall>c\<in>set candidates. \<not> (fst (snd c) \<le> m \<and> M \<le> snd (snd c))) \<longleftrightarrow>
     (m < - 2147483648 \<or> 4294967295 < M \<or> (m < 0 \<and> 2147483647 < M))"
  by (auto simp add: limits_def type_size_def candidates_def)

lemma type_loop_returns:
  "type_loop m M 0 limits \<noteq> Inl OverflowError \<Longrightarrow>
   \<exists>k\<in>set type_size. type_loop m M 0 limits = Inr k"
  by (simp add: limits_def type_size_def split: if_splits)

lemma Min_lower: "table \<noteq> [] \<Longrightarrow> \<forall>x\<in>set table. (lo::int) \<le> x \<Longrightarrow> lo \<le> Min (set table)"
  by simp

lemma Max_upper: "table \<noteq> [] \<Longrightarrow> \<forall>x\<in>set table. x \<le> (hi::int) \<Longrightarrow> Max (set table) \<le> hi"
  by simp

lemma Min_le_member: "(x::int) \<in> set table \<Longrightarrow> Min (set table) \<le> x"
  by simp

lemma Min_le_Max: "table \<noteq> [] \<Longrightarrow> Min (set table) \<le> (Max (set table) :: int)"
  by simp

text \<open>
  C3 (as amended). For a non-empty integer array, when some candidate of the ordered list
  (unsigned 8, 16, 32 bit, then signed 8, 16, 32 bit) has limits containing the minimum and
  the maximum, \<open>get_type_size\<close> returns the first such candidate. An array with all values
  in \<open>[0, 130]\<close> resolves to the one-byte unsigned kind. An array containing \<open>-5\<close> resolves
  to a signed kind when its values lie in \<open>[-2147483648, 2147483647]\<close>, and raises the
  overflow error otherwise.
\<close>

theorem get_type_size_first_fit:
  assumes "table \<noteq> []"
  shows "(\<forall>c. find (covers table) candidates = Some c \<longrightarrow>
            get_type_size table = Inr (fst c)
            \<and> (\<exists>k<length candidates. candidates ! k = c \<and> covers table c
                  \<and> (\<forall>j<k. \<not> covers table (candidates ! j))))
       \<and> ((\<forall>x\<in>set table. 0 \<le> x \<and> x \<le> 130) \<longrightarrow> get_type_size table = Inr (''uschar'', 1))
       \<and> (- 5 \<in> set table \<longrightarrow>
            (if - 2147483648 \<le> Min (set table) \<and> Max (set table) \<le> 2147483647
             then \<exists>k\<in>signed_kinds. get_type_size table = Inr k
             else get_type_size table = Inl OverflowError))"
proof (intro conjI allI impI)
  fix c
  assume "find (covers table) candidates = Some c"
  then show "\<exists>k<length candidates. candidates ! k = c \<and> covers table c
                  \<and> (\<forall>j<k. \<not> covers table (candidates ! j))"
    unfolding find_Some_iff by blast
next
  fix c
  assume "find (covers table) candidates = Some c"
  then have "find (\<lambda>c. fst (snd c) \<le> Min (set table) \<and> Max (set table) \<le> snd (snd c))
               candidates = Some c"
    unfolding covers_def [abs_def] .
  then have "type_loop (Min (set table)) (Max (set table)) 0 limits = Inr (fst c)"
    by (simp only: type_loop_find option.case)
  then show "get_type_size table = Inr (fst c)"
    by (simp only: get_type_size_loop [OF assms])
next
  assume a: "\<forall>x\<in>set table. 0 \<le> x \<and> x \<le> 130"
  have "0 \<le> Min (set table)"
    using a by (intro Min_lower [OF assms]) blast
  moreover have "Max (set table) \<le> 130"
    using a by (intro Max_upper [OF assms]) blast
  ultimately have "type_loop (Min (set table)) (Max (set table)) 0 limits = Inr (''uschar'', 1)"
    by (rule type_loop_small)
  then show "get_type_size table = Inr (''uschar'', 1)"
    by (simp only: get_type_size_loop [OF assms])
next
  assume "- 5 \<in> set table"
  then have "Min (set table) \<le> - 5"
    by (rule Min_le_member)
  from type_loop_negative [OF this, of "Max (set table)"]
  show "if - 2147483648 \<le> Min (set table) \<and> Max (set table) \<le> 2147483647
        then \<exists>k\<in>signed_kinds. get_type_size table = Inr k
        else get_type_size table = Inl OverflowError"
    by (simp only: get_type_size_loop [OF assms])
qed

theorem get_type_size_first_fit_witness:
  "[- 5, 300] \<noteq> ([]::int list)
   \<and> find (covers [- 5, 300]) candidates = Some ((''pcre_int16'', 2), (- 32768, 32767))
   \<and> get_type_size [- 5, 300] = Inr (''pcre_int16'', 2)
   \<and> \<not> (\<exists>x\<in>set [0, 130::int]. \<not> (0 \<le> x \<and> x \<le> 130))
   \<and> get_type_size [0, 130] = Inr (''uschar'', 1)
   \<and> - 5 \<in> set [- 5, 300::int]"
  using get_type_size_first_fit [of "[- 5, 300]"] get_type_size_first_fit [of "[0, 130]"]
  by (simp add: covers_def candidates_def type_size_def limits_def)

theorem get_type_size_minus5_counterexample:
  "- 5 \<in> set [- 5, 4294967296::int]
   \<and> get_type_size [- 5, 4294967296] = Inl OverflowError
   \<and> \<not> (\<exists>k. get_type_size [- 5, 4294967296] = Inr k)"
  by (simp add: get_type_size_def py_min_def py_max_def limits_def)

text \<open>
  C4. For a non-empty integer array, \<open>get_type_size\<close> raises the overflow error if and
  only if no candidate covers the value range, that is, the minimum is below
  \<open>-2147483648\<close>, or the maximum exceeds \<open>4294967295\<close>, or a negative minimum comes with a
  maximum above \<open>2147483647\<close>; otherwise it returns one of the six kinds.
\<close>

theorem get_type_size_overflow_iff:
  assumes "table \<noteq> []"
  shows "(get_type_size table = Inl OverflowError \<longleftrightarrow> (\<forall>c\<in>set candidates. \<not> covers table c))
       \<and> ((\<forall>c\<in>set candidates. \<not> covers table c) \<longleftrightarrow>
            (Min (set table) < - 2147483648 \<or> 4294967295 < Max (set table)
             \<or> (Min (set table) < 0 \<and> 2147483647 < Max (set table))))
       \<and> (get_type_size table \<noteq> Inl OverflowError \<longrightarrow>
            (\<exists>k\<in>set type_size. get_type_size table = Inr k))"
  unfolding get_type_size_loop [OF assms] covers_def
  using type_loop_overflow [of "Min (set table)" "Max (set table)"]
    no_candidate_iff [OF Min_le_Max [OF assms]]
    type_loop_returns [of "Min (set table)" "Max (set table)"]
  by blast

theorem get_type_size_overflow_iff_witness:
  "[- 1, 2147483648] \<noteq> ([]::int list)
   \<and> get_type_size [- 1, 2147483648] = Inl OverflowError
   \<and> \<not> (\<exists>c\<in>set candidates. covers [- 1, 2147483648] c)
   \<and> get_type_size [- 1, 2147483647] = Inr (''pcre_int32'', 4)"
  using get_type_size_overflow_iff [of "[- 1, 2147483648]"]
    get_type_size_overflow_iff [of "[- 1, 2147483647]"]
  by (simp add: get_type_size_def py_min_def py_max_def limits_def type_size_def)

subsection \<open>The record layout planner\<close>

lemma map_err_Inr:
  "\<forall>x\<in>set xs. f x = Inr (g x) \<Longrightarrow> map_err f xs = Inr (map g xs)"
  by (induction xs) simp_all

lemma getitem_nat: "i < length xs \<Longrightarrow> getitem xs (int i) = Inr (xs ! i)"
  by (simp add: getitem_def)

lemma column_slice:
  assumes "\<forall>r\<in>set records. length r = N" and "i < N"
  shows "map_err (\<lambda>record. getitem record (int i)) records = Inr (column i records)"
  unfolding column_def
  by (rule map_err_Inr) (simp add: assms getitem_nat)

lemma pad_code: "(offset + w - 1) AND (- w) = pad offset w"
  by (simp add: pad_def not_int_def)

lemma record_loop_fold:
  assumes len: "\<forall>r\<in>set records. length r = N"
    and res: "\<forall>i<N. get_type_size (column i records) = Inr (kinds ! i)"
  shows "\<forall>i\<in>set ns. i < N \<Longrightarrow>
         \<exists>s'. record_loop records (map int ns) size' s =
           Inr (fold (\<lambda>w offset. pad offset w + w) (map (\<lambda>i. snd (kinds ! i)) ns) size', s')"
proof (induction ns arbitrary: size' s)
  case Nil
  show ?case by simp
next
  case (Cons n ns)
  have n: "n < N" using Cons.prems by simp
  obtain nm w where k: "kinds ! n = (nm, w)" by (cases "kinds ! n")
  have ty: "get_type_size (column n records) = Inr (nm, w)"
    using res n k by simp
  have rest: "\<forall>i\<in>set ns. i < N" using Cons.prems by simp
  show ?case
    using Cons.IH [OF rest, of "pad size' w + w"]
    by (simp add: column_slice [OF len n] ty k pad_code)
qed

lemma and_not_mask_div: "(x::int) AND NOT (mask k) = (x div 2 ^ k) * 2 ^ k"
proof -
  have "x AND NOT (mask k) = push_bit k (drop_bit k x)"
    by (rule bit_eqI) (auto simp add: bit_simps)
  then show ?thesis
    by (simp add: push_bit_eq_mult drop_bit_eq_div)
qed

lemma pad_pow2: "pad offset (2 ^ k) = ((offset + 2 ^ k - 1) div 2 ^ k) * 2 ^ k"
  by (simp add: pad_def and_not_mask_div flip: mask_eq_exp_minus_1)

lemma pad_multiple:
  "w \<in> {1, 2, 4} \<Longrightarrow> w dvd pad offset w \<and> offset \<le> pad offset w \<and> pad offset w < offset + w"
  using pad_pow2 [of offset 0] pad_pow2 [of offset 1] pad_pow2 [of offset 2]
  by auto

lemma get_type_size_kind:
  assumes "get_type_size table = Inr k"
  shows "k \<in> set type_size"
proof (cases "table = []")
  case True
  with assms show ?thesis
    by (simp add: get_type_size_def py_min_def)
next
  case False
  then have "type_loop (Min (set table)) (Max (set table)) 0 limits = Inr k"
    using assms get_type_size_loop [of table] by simp
  with type_loop_returns [of "Min (set table)" "Max (set table)"] show ?thesis
    by auto
qed

lemma type_size_widths: "k \<in> set type_size \<Longrightarrow> snd k \<in> {1, 2, 4}"
  by (auto simp add: type_size_def)

lemma get_type_size_error:
  assumes "table \<noteq> []" and "get_type_size table = Inl e"
  shows "e = OverflowError"
proof (rule ccontr)
  assume "e \<noteq> OverflowError"
  then have "type_loop (Min (set table)) (Max (set table)) 0 limits \<noteq> Inl OverflowError"
    using assms get_type_size_loop [of table] by simp
  from type_loop_returns [OF this] show False
    using assms get_type_size_loop [of table] by simp
qed

lemma record_loop_overflow:
  assumes len: "\<forall>r\<in>set records. length r = N" and ne: "records \<noteq> []"
    and bad: "get_type_size (column i records) = Inl OverflowError"
  shows "\<forall>n\<in>set ns. n < N \<Longrightarrow> i \<in> set ns \<Longrightarrow>
         record_loop records (map int ns) size' s = Inl OverflowError"
proof (induction ns arbitrary: size' s)
  case Nil
  then show ?case by simp
next
  case (Cons n ns)
  have n: "n < N" and rest: "\<forall>n\<in>set ns. n < N"
    using Cons.prems(1) by simp_all
  have col: "column n records \<noteq> []"
    using ne by (simp add: column_def)
  show ?case
  proof (cases "get_type_size (column n records)")
    case (Inl e)
    then have "e = OverflowError"
      using col by (intro get_type_size_error)
    with Inl show ?thesis
      by (simp add: column_slice [OF len n])
  next
    case (Inr k)
    obtain nm w where k: "k = (nm, w)" by (cases k)
    have "i \<noteq> n"
      using Inr bad by auto
    then have "i \<in> set ns"
      using Cons.prems(2) by simp
    then show ?thesis
      using Cons.IH [OF rest] by (simp add: column_slice [OF len n] Inr k)
  qed
qed

text \<open>
  C5. For a non-empty table of \<open>N\<close>-tuples (\<open>N > 0\<close>): when the columns resolve to the
  kinds \<open>kinds\<close>, \<open>get_record_size_struct\<close> returns the size obtained by walking the
  fields in tuple order, padding the running offset with \<open>(offset + w - 1) & ~(w - 1)\<close>
  before adding each width \<open>w\<close>, and padding the total with the width of the first field
  (not the largest), where that padding moves an offset up to the next multiple of the
  resolved width; when a column does not resolve, it raises the overflow error. The eight
  tabulated cases give the sizes 1, 2, 2, 4, 4, 4, 8, 8, so \<open>test_record_size\<close> passes.
\<close>

theorem get_record_size_struct_layout:
  assumes "records \<noteq> []" and "\<forall>r\<in>set records. length r = N" and "0 < N"
  shows "(\<forall>kinds. length kinds = N
            \<and> (\<forall>i<N. get_type_size (column i records) = Inr (kinds ! i)) \<longrightarrow>
            (\<exists>structure. get_record_size_struct records
               = Inr (layout (map snd kinds), structure))
            \<and> (\<forall>i<N. \<forall>offset. snd (kinds ! i) dvd pad offset (snd (kinds ! i))
                  \<and> offset \<le> pad offset (snd (kinds ! i))
                  \<and> pad offset (snd (kinds ! i)) < offset + snd (kinds ! i)))
       \<and> (\<forall>i<N. get_type_size (column i records) = Inl OverflowError \<longrightarrow>
             get_record_size_struct records = Inl OverflowError)
       \<and> map (\<lambda>t. map_sum id fst (get_record_size_struct (fst t))) tests = map (Inr \<circ> snd) tests
       \<and> test_record_size = Inr ()"
proof (intro conjI allI impI)
  fix kinds i offset
  assume k: "length kinds = N \<and> (\<forall>i<N. get_type_size (column i records) = Inr (kinds ! i))"
    and "i < N"
  then have "get_type_size (column i records) = Inr (kinds ! i)"
    by simp
  then have "snd (kinds ! i) \<in> {1, 2, 4}"
    by (intro type_size_widths get_type_size_kind)
  then show "snd (kinds ! i) dvd pad offset (snd (kinds ! i))"
    and "offset \<le> pad offset (snd (kinds ! i))"
    and "pad offset (snd (kinds ! i)) < offset + snd (kinds ! i)"
    using pad_multiple [of "snd (kinds ! i)" offset] by simp_all
next
  fix kinds
  assume k: "length kinds = N \<and> (\<forall>i<N. get_type_size (column i records) = Inr (kinds ! i))"
  then have lk: "length kinds = N"
    and res: "\<forall>i<N. get_type_size (column i records) = Inr (kinds ! i)"
    by simp_all
  have r0: "getitem records 0 = Inr (hd records)"
    using assms(1) by (cases records) (simp_all add: getitem_def)
  have l0: "length (hd records) = N"
    using assms(1,2) by (cases records) simp_all
  have "map (\<lambda>i. snd (kinds ! i)) [0..<length kinds] = map snd kinds"
    by (rule nth_equalityI) simp_all
  then have ks: "map (\<lambda>i. snd (kinds ! i)) [0..<N] = map snd kinds"
    using lk by simp
  from record_loop_fold [OF assms(2) res, of "[0..<N]" 0 struct_header]
  obtain s' where loop: "record_loop records (range1 (int N)) 0 struct_header =
      Inr (fold (\<lambda>w offset. pad offset w + w) (map snd kinds) 0, s')"
    unfolding range1_def ks by auto
  obtain nm w where k0: "kinds ! 0 = (nm, w)" by (cases "kinds ! 0")
  have hd: "hd (map snd kinds) = w"
    using assms(3) lk k0 by (cases kinds) simp_all
  have c0: "map_err (\<lambda>record. getitem record 0) records = Inr (column 0 records)"
    using column_slice [OF assms(2,3)] by simp
  have t0: "get_type_size (column 0 records) = Inr (nm, w)"
    using assms(3) res k0 by simp
  show "\<exists>structure. get_record_size_struct records = Inr (layout (map snd kinds), structure)"
    by (simp add: get_record_size_struct_def r0 l0 loop c0 t0 layout_def hd pad_code)
next
  fix i
  assume i: "i < N" and bad: "get_type_size (column i records) = Inl OverflowError"
  have r0: "getitem records 0 = Inr (hd records)"
    using assms(1) by (cases records) (simp_all add: getitem_def)
  have l0: "length (hd records) = N"
    using assms(1,2) by (cases records) simp_all
  have "record_loop records (map int [0..<N]) 0 struct_header = Inl OverflowError"
    using i by (intro record_loop_overflow [OF assms(2,1) bad]) simp_all
  then show "get_record_size_struct records = Inl OverflowError"
    by (simp add: get_record_size_struct_def r0 l0 range1_def)
next
  show "map (\<lambda>t. map_sum id fst (get_record_size_struct (fst t))) tests = map (Inr \<circ> snd) tests"
    by (simp add: tests_def get_record_size_struct_def getitem_def range1_def
        get_type_size_def py_min_def py_max_def limits_def type_size_def upt_rec)
next
  show "test_record_size = Inr ()"
    by (simp add: test_record_size_def tests_def get_record_size_struct_def getitem_def
        range1_def get_type_size_def py_min_def py_max_def limits_def type_size_def upt_rec)
qed

theorem get_record_size_struct_layout_witness:
  "[[3, 100000], [6, 6], [6, 123456], [1, 690]] \<noteq> ([]::int list list)
   \<and> list_all (\<lambda>r. length r = 2) [[3, 100000], [6, 6], [6, 123456], [1, 690::int]]
   \<and> get_type_size (column 0 [[3, 100000], [6, 6], [6, 123456], [1, 690]]) = Inr (''uschar'', 1)
   \<and> get_type_size (column 1 [[3, 100000], [6, 6], [6, 123456], [1, 690]])
       = Inr (''pcre_uint32'', 4)
   \<and> layout [1, 4] = 8
   \<and> (\<exists>structure. get_record_size_struct [[3, 100000], [6, 6], [6, 123456], [1, 690]]
         = Inr (8, structure))
   \<and> get_type_size (column 1 [[3, - 1], [6, 4294967295]]) = Inl OverflowError
   \<and> get_record_size_struct [[3, - 1], [6, 4294967295]] = Inl OverflowError
   \<and> map_sum id fst (get_record_size_struct [[3, 100000, 1]]) = Inr 9"
proof -
  let ?recs = "[[3, 100000], [6, 6], [6, 123456], [1, 690::int]]"
  let ?kinds = "[(''uschar'', 1), (''pcre_uint32'', 4::int)]"
  let ?bad = "[[3, - 1], [6, 4294967295::int]]"
  have h1: "?recs \<noteq> []" by simp
  have h2: "\<forall>r\<in>set ?recs. length r = 2" by simp
  have h3: "0 < (2::nat)" by simp
  have h4: "length ?kinds = 2" by simp
  have c0: "get_type_size (column 0 ?recs) = Inr (''uschar'', 1)"
    by (simp add: column_def get_type_size_def py_min_def py_max_def limits_def type_size_def)
  have c1: "get_type_size (column 1 ?recs) = Inr (''pcre_uint32'', 4)"
    by (simp add: column_def get_type_size_def py_min_def py_max_def limits_def type_size_def)
  have h5: "\<forall>i<2. get_type_size (column i ?recs) = Inr (?kinds ! i)"
  proof (intro allI impI)
    fix i :: nat
    assume "i < 2"
    then consider "i = 0" | "i = 1" by linarith
    then show "get_type_size (column i ?recs) = Inr (?kinds ! i)"
      using c0 c1 by cases simp_all
  qed
  have l: "layout [1, 4] = 8"
    by (simp add: layout_def pad_def)
  have prem: "length ?kinds = 2 \<and> (\<forall>i<2. get_type_size (column i ?recs) = Inr (?kinds ! i))"
    using h4 h5 by (rule conjI)
  note layout = get_record_size_struct_layout [OF h1 h2 h3]
  from layout [THEN conjunct1, THEN spec, THEN mp, OF prem, THEN conjunct1]
  have "\<exists>structure. get_record_size_struct ?recs = Inr (layout (map snd ?kinds), structure)" .
  then have good: "\<exists>structure. get_record_size_struct ?recs = Inr (8, structure)"
    using l by simp
  have b1: "?bad \<noteq> []" by simp
  have b2: "\<forall>r\<in>set ?bad. length r = 2" by simp
  have b3: "get_type_size (column 1 ?bad) = Inl OverflowError"
    by (simp add: column_def get_type_size_def py_min_def py_max_def limits_def)
  have one: "(1::nat) < 2" by simp
  note overflow = get_record_size_struct_layout [OF b1 b2 h3]
  have bad: "get_record_size_struct ?bad = Inl OverflowError"
    using overflow [THEN conjunct2, THEN conjunct1, THEN spec, THEN mp, OF one, THEN mp, OF b3] .
  have first: "map_sum id fst (get_record_size_struct [[3, 100000, 1]]) = Inr 9"
    by (simp add: get_record_size_struct_def getitem_def range1_def
        get_type_size_def py_min_def py_max_def limits_def type_size_def upt_rec)
  show ?thesis
    using c0 c1 l good b3 bad first by (intro conjI) simp_all
qed

subsection \<open>First occurrences and numbering\<close>

lemma set_first_seen: "set (first_seen xs) = set xs"
  by (induction xs) auto

lemma distinct_first_seen: "distinct (first_seen xs)"
  by (induction xs) (simp_all add: set_first_seen)

lemma first_seen_append:
  "first_seen (xs @ ys) = first_seen xs @ filter (\<lambda>y. y \<notin> set xs) (first_seen ys)"
proof (induction xs)
  case Nil
  show ?case by simp
next
  case (Cons x xs)
  have "filter (\<lambda>y. y \<noteq> x) (filter (\<lambda>y. y \<notin> set xs) (first_seen ys))
        = filter (\<lambda>y. y \<notin> set (x # xs)) (first_seen ys)"
    by (simp add: conj_commute)
  with Cons.IH show ?case by simp
qed

lemma first_seen_snoc:
  "first_seen (xs @ [x]) = (if x \<in> set xs then first_seen xs else first_seen xs @ [x])"
  by (simp add: first_seen_append)

lemma index_of_less: "x \<in> set xs \<Longrightarrow> index_of x xs < length xs"
  by (induction xs) auto

lemma nth_index_of: "x \<in> set xs \<Longrightarrow> xs ! index_of x xs = x"
  by (induction xs) auto

lemma index_of_append: "x \<in> set xs \<Longrightarrow> index_of x (xs @ ys) = index_of x xs"
  by (induction xs) auto

lemma index_of_snoc: "x \<notin> set xs \<Longrightarrow> index_of x (xs @ [x]) = length xs"
  by (induction xs) auto

lemma index_of_nth: "distinct xs \<Longrightarrow> i < length xs \<Longrightarrow> index_of (xs ! i) xs = i"
proof (induction xs arbitrary: i)
  case Nil
  then show ?case by simp
next
  case (Cons x xs)
  then show ?case by (cases i) auto
qed

lemma index_of_eq_iff:
  "x \<in> set xs \<Longrightarrow> y \<in> set xs \<Longrightarrow> index_of x xs = index_of y xs \<longleftrightarrow> x = y"
  by (metis nth_index_of)

lemma numbered_snoc: "numbered (xs @ [x]) = numbered xs @ [(x, int (length xs))]"
  by (simp add: numbered_def)

lemma length_numbered: "length (numbered xs) = length xs"
  by (simp add: numbered_def)

lemma map_of_numbered:
  "map_of (numbered xs) x = (if x \<in> set xs then Some (int (index_of x xs)) else None)"
proof (induction xs rule: rev_induct)
  case Nil
  show ?case by (simp add: numbered_def)
next
  case (snoc y ys)
  show ?case
    by (auto simp add: numbered_snoc snoc.IH index_of_append index_of_snoc map_add_def
        split: option.splits)
qed

lemma update_absent: "map_of al k = None \<Longrightarrow> AList.update k v al = al @ [(k, v)]"
  by (induction al) (auto split: if_splits)

subsection \<open>The block compressor\<close>

lemma take_min_length: "take (min b (length ys)) ys = take b ys"
  by (cases "b \<le> length ys") (simp_all add: min_def)

lemma slice_nat: "slice xs (int a) (int a + int b) = take b (drop a xs)"
proof (cases "a \<le> length xs")
  case True
  then have "nat (min (int a + int b) (int (length xs)) - int a) = min b (length (drop a xs))"
    by simp
  moreover have "take (min b (length (drop a xs))) (drop a xs) = take b (drop a xs)"
    by (rule take_min_length)
  ultimately show ?thesis
    using True by (simp add: slice_def Let_def min_absorb1)
next
  case False
  then show ?thesis
    by (simp add: slice_def Let_def)
qed

lemma length_concat_uniform:
  "\<forall>x\<in>set xss. length x = B \<Longrightarrow> length (concat xss) = B * length xss"
  by (induction xss) simp_all

lemma nth_concat_uniform:
  "\<forall>x\<in>set xss. length x = B \<Longrightarrow> j < length xss \<Longrightarrow> r < B \<Longrightarrow>
   concat xss ! (j * B + r) = xss ! j ! r"
proof (induction xss arbitrary: j)
  case Nil
  then show ?case by simp
next
  case (Cons x xss)
  show ?case
  proof (cases j)
    case 0
    with Cons.prems show ?thesis by (simp add: nth_append)
  next
    case (Suc j')
    have "concat (x # xss) ! (j * B + r) = concat xss ! (j' * B + r)"
      using Cons.prems Suc by (simp add: nth_append)
    also have "\<dots> = xss ! j' ! r"
      using Cons.prems Suc by (intro Cons.IH) simp_all
    finally show ?thesis using Suc by simp
  qed
qed

text \<open>
  The loop invariant: after the blocks \<open>done\<close>, the dictionary numbers the distinct
  blocks in the order of their first occurrence, stage 1 holds the number of each block and
  stage 2 the distinct blocks.
\<close>

lemma compress_loop_blocks:
  assumes B: "0 < B"
  shows "\<forall>b\<in>set done. length b = B \<Longrightarrow>
         \<forall>k\<in>set ks. length (take B (drop (k * B) table)) = B \<Longrightarrow>
         compress_loop table (int B) (map (\<lambda>k. int k * int B) ks)
           (numbered (first_seen done),
            map (\<lambda>b. int (index_of b (first_seen done))) done,
            concat (first_seen done))
         = (let bs = done @ map (\<lambda>k. take B (drop (k * B) table)) ks in
            (numbered (first_seen bs),
             map (\<lambda>b. int (index_of b (first_seen bs))) bs,
             concat (first_seen bs)))"
proof (induction ks arbitrary: "done")
  case Nil
  show ?case by simp
next
  case (Cons k ks)
  let ?b = "take B (drop (k * B) table)"
  have sl: "slice table (int k * int B) (int k * int B + int B) = ?b"
    using slice_nat [of table "k * B" B] by simp
  have lenb: "length ?b = B"
    using Cons.prems(2) by simp
  have done': "\<forall>b\<in>set (done @ [?b]). length b = B"
    using Cons.prems(1) lenb by simp
  have rest: "\<forall>k\<in>set ks. length (take B (drop (k * B) table)) = B"
    using Cons.prems(2) by simp
  note IH = Cons.IH [OF done' rest]
  show ?case
  proof (cases "?b \<in> set done")
    case True
    then have fs: "first_seen (done @ [?b]) = first_seen done"
      by (simp add: first_seen_snoc)
    show ?thesis
      using IH True
      by (simp add: sl map_of_numbered set_first_seen fs Let_def)
  next
    case False
    then have fs: "first_seen (done @ [?b]) = first_seen done @ [?b]"
      by (simp add: first_seen_snoc)
    have "length (concat (first_seen done)) = B * length (first_seen done)"
      using Cons.prems(1) by (intro length_concat_uniform) (simp add: set_first_seen)
    then have start: "int (length (concat (first_seen done))) div int B
        = int (length (first_seen done))"
      using B by (simp flip: zdiv_int)
    have notin: "?b \<notin> set (first_seen done)"
      using False by (simp add: set_first_seen)
    have upd: "AList.update ?b (int (length (first_seen done))) (numbered (first_seen done))
        = numbered (first_seen done @ [?b])"
      using notin by (simp add: update_absent map_of_numbered numbered_snoc)
    have ids: "map (\<lambda>b. int (index_of b (first_seen done))) done @ [int (length (first_seen done))]
        = map (\<lambda>b. int (index_of b (first_seen done @ [?b]))) (done @ [?b])"
      using notin by (simp add: index_of_append index_of_snoc set_first_seen)
    show ?thesis
      using IH False
      by (simp add: sl map_of_numbered set_first_seen Let_def start upd ids fs)
  qed
qed

lemma range3_blocks:
  assumes "0 < B"
  shows "range3 0 (int (n * B)) (int B) = Inr (map (\<lambda>k. int k * int B) [0..<n])"
proof -
  have "(int n * int B + int B - 1) div int B = int n"
    using assms by (simp add: div_pos_pos_trivial flip: add_diff_eq
        add: div_mult_self3 [of "int B" "int B - 1" "int n"])
  then show ?thesis
    using assms by (simp add: range3_def)
qed

lemma blocks_of_length:
  assumes "length table = n * B" and "0 < B"
  shows "length (blocks_of B table) = n"
    and "\<forall>b\<in>set (blocks_of B table). length b = B"
proof -
  show "length (blocks_of B table) = n"
    using assms by (simp add: blocks_of_def)
  show "\<forall>b\<in>set (blocks_of B table). length b = B"
  proof
    fix b
    assume "b \<in> set (blocks_of B table)"
    then obtain k where k: "k < n" and b: "b = take B (drop (k * B) table)"
      using assms by (auto simp add: blocks_of_def)
    have "Suc k * B \<le> n * B"
      using k by (intro mult_le_mono1) simp
    then show "length b = B"
      using assms(1) b by simp
  qed
qed

lemma compress_table_blocks:
  assumes "0 < B" and "length table = n * B"
  shows "compress_table table (int B) =
           Inr (map (\<lambda>b. int (index_of b (first_seen (blocks_of B table)))) (blocks_of B table),
                concat (first_seen (blocks_of B table)))"
proof -
  have bl: "blocks_of B table = map (\<lambda>k. take B (drop (k * B) table)) [0..<n]"
    using assms by (simp add: blocks_of_def)
  have lens: "\<forall>k\<in>set [0..<n]. length (take B (drop (k * B) table)) = B"
    using blocks_of_length(2) [OF assms(2,1)] unfolding bl by simp
  have "compress_loop table (int B) (map (\<lambda>k. int k * int B) [0..<n]) ([], [], [])
        = (numbered (first_seen (blocks_of B table)),
           map (\<lambda>b. int (index_of b (first_seen (blocks_of B table)))) (blocks_of B table),
           concat (first_seen (blocks_of B table)))"
    using compress_loop_blocks [OF assms(1) _ lens, of "[]"]
    by (simp add: bl numbered_def Let_def)
  then show ?thesis
    using range3_blocks [OF assms(1), of n] assms(2)
    by (simp add: compress_table_def)
qed

lemma first_seen_order: "sorted_wrt (<) (map (\<lambda>b. index_of b xs) (first_seen xs))"
proof (induction xs)
  case Nil
  show ?case by simp
next
  case (Cons x xs)
  have eq: "map (\<lambda>b. index_of b (x # xs)) (filter (\<lambda>y. y \<noteq> x) (first_seen xs))
      = map Suc (map (\<lambda>b. index_of b xs) (filter (\<lambda>y. y \<noteq> x) (first_seen xs)))"
    by (simp add: comp_def cong: map_cong)
  have "sorted_wrt (<) (map (\<lambda>b. index_of b xs) (filter (\<lambda>y. y \<noteq> x) (first_seen xs)))"
    using Cons.IH by (simp add: sorted_wrt_map sorted_wrt_filter)
  then have "sorted_wrt (<)
      (0 # map Suc (map (\<lambda>b. index_of b xs) (filter (\<lambda>y. y \<noteq> x) (first_seen xs))))"
    by (simp add: sorted_wrt_map)
  moreover have "index_of x (x # xs) = 0"
    by simp
  ultimately show ?case
    unfolding first_seen.simps list.map eq by (simp only:)
qed

lemma index_of_first_occurrence:
  assumes "k < length bs" and "bs ! k \<notin> set (take k bs)"
  shows "index_of (bs ! k) (first_seen bs) = length (first_seen (take k bs))"
proof -
  have "bs = (take k bs @ [bs ! k]) @ drop (Suc k) bs"
    using assms(1) by (simp add: id_take_nth_drop [symmetric])
  then have "first_seen bs = first_seen (take k bs @ [bs ! k])
      @ filter (\<lambda>y. y \<notin> set (take k bs @ [bs ! k])) (first_seen (drop (Suc k) bs))"
    using first_seen_append [of "take k bs @ [bs ! k]" "drop (Suc k) bs"] by simp
  then have "first_seen bs = (first_seen (take k bs) @ [bs ! k])
      @ filter (\<lambda>y. y \<notin> set (take k bs @ [bs ! k])) (first_seen (drop (Suc k) bs))"
    using assms(2) by (simp only: first_seen_snoc if_False)
  then have "index_of (bs ! k) (first_seen bs)
      = index_of (bs ! k) (first_seen (take k bs) @ [bs ! k])"
    by (simp only: index_of_append [of "bs ! k" "first_seen (take k bs) @ [bs ! k]"] set_append
        list.set UnI2 insertI1)
  also have "\<dots> = length (first_seen (take k bs))"
    using assms(2) by (intro index_of_snoc) (simp add: set_first_seen)
  finally show ?thesis .
qed

lemma blocks_of_take:
  assumes "0 < B" and "length table = n * B" and "k \<le> n"
  shows "blocks_of B (take (k * B) table) = take k (blocks_of B table)"
proof -
  have le: "k * B \<le> n * B"
    using assms(3) by (rule mult_le_mono1)
  have len: "length (take (k * B) table) = k * B"
    using assms(2) le by simp
  have "\<And>i. i < k \<Longrightarrow> take B (drop (i * B) (take (k * B) table)) = take B (drop (i * B) table)"
  proof -
    fix i
    assume "i < k"
    then have "Suc i * B \<le> k * B"
      by (intro mult_le_mono1) simp
    then have "B \<le> k * B - i * B"
      by simp
    then show "take B (drop (i * B) (take (k * B) table)) = take B (drop (i * B) table)"
      by (simp add: drop_take min_absorb1)
  qed
  then show ?thesis
    using assms by (simp add: blocks_of_def len take_map)
qed

lemma nth_blocks_of:
  assumes "0 < B" and "length table = n * B" and "c < length table"
  shows "c div B < n" and "blocks_of B table ! (c div B) ! (c mod B) = table ! c"
proof -
  show k: "c div B < n"
    using assms by (simp add: less_mult_imp_div_less)
  have "c div B * B + c mod B = c"
    by simp
  moreover have "c div B * B + c mod B < length table"
    using assms(3) by simp
  ultimately show "blocks_of B table ! (c div B) ! (c mod B) = table ! c"
    using assms k by (simp add: blocks_of_def del: div_mult_mod_eq)
qed

text \<open>
  C1. For a table whose length is a multiple of the block size \<open>B > 0\<close> and every index
  \<open>c\<close> into it, \<open>compress_table\<close> returns stages such that
  \<open>stage2[stage1[c / B] * B + (c % B)]\<close> is the value of the table at \<open>c\<close>; both lookups
  are in range. The table is arbitrary, so this holds for the record-id array too.
\<close>

theorem compress_table_round_trip:
  assumes "0 < B" and "length table = n * B" and "c < length table"
  shows "\<exists>stage1 stage2 s. compress_table table (int B) = Inr (stage1, stage2)
           \<and> getitem stage1 (int c div int B) = Inr s
           \<and> getitem stage2 (s * int B + int c mod int B) = Inr (table ! c)"
proof -
  let ?bs = "blocks_of B table"
  let ?fs = "first_seen ?bs"
  let ?k = "c div B"
  let ?j = "index_of (?bs ! ?k) ?fs"
  have k: "?k < n" and val: "?bs ! ?k ! (c mod B) = table ! c"
    using nth_blocks_of [OF assms] by simp_all
  have len: "length ?bs = n" and lens: "\<forall>b\<in>set ?bs. length b = B"
    using blocks_of_length [OF assms(2,1)] by simp_all
  have mem: "?bs ! ?k \<in> set ?fs"
    using k len by (simp add: set_first_seen)
  have j: "?j < length ?fs" and fsj: "?fs ! ?j = ?bs ! ?k"
    using mem by (simp_all add: index_of_less nth_index_of)
  have lens': "\<forall>b\<in>set ?fs. length b = B"
    using lens by (simp add: set_first_seen)
  have r: "c mod B < B"
    using assms(1) by simp
  have "?j * B + c mod B < Suc ?j * B"
    using r by simp
  also have "\<dots> \<le> length ?fs * B"
    using j by (intro mult_le_mono1) simp
  finally have inr: "?j * B + c mod B < length (concat ?fs)"
    by (simp add: length_concat_uniform [OF lens'] mult.commute)
  have s1: "getitem (map (\<lambda>b. int (index_of b ?fs)) ?bs) (int c div int B) = Inr (int ?j)"
    using getitem_nat [of ?k "map (\<lambda>b. int (index_of b ?fs)) ?bs"] k len
    by (simp add: zdiv_int)
  have "getitem (concat ?fs) (int (?j * B + c mod B)) = Inr (concat ?fs ! (?j * B + c mod B))"
    using inr by (rule getitem_nat)
  also have "concat ?fs ! (?j * B + c mod B) = ?fs ! ?j ! (c mod B)"
    using lens' j r by (rule nth_concat_uniform)
  finally have s2: "getitem (concat ?fs) (int ?j * int B + int c mod int B) = Inr (table ! c)"
    by (simp add: fsj val zmod_int)
  show ?thesis
    using s1 s2 by (simp add: compress_table_blocks [OF assms(1,2)])
qed

theorem compress_table_round_trip_witness:
  "(0::nat) < 2 \<and> length [7, 7, 8, 9, 7, 7 :: int] = 3 * 2 \<and> (3::nat) < length [7, 7, 8, 9, 7, 7 :: int]
   \<and> compress_table [7, 7, 8, 9, 7, 7 :: int] 2 = Inr ([0, 1, 0], [7, 7, 8, 9])
   \<and> getitem [0, 1, 0 :: int] (3 div 2) = Inr 1
   \<and> getitem [7, 7, 8, 9 :: int] (1 * 2 + 3 mod 2) = Inr ([7, 7, 8, 9, 7, 7] ! 3)"
  using compress_table_round_trip [of 2 "[7, 7, 8, 9, 7, 7 :: int]" 3 3]
  by (simp add: compress_table_def range3_def slice_def Let_def getitem_def upt_rec)

text \<open>
  C8. For a table whose length is a multiple of the block size \<open>B > 0\<close>, \<open>compress_table\<close>
  returns a stage 1 with one entry for each block and a stage 2 of \<open>B\<close> times the number
  of distinct blocks; stage 2 is the concatenation of the distinct blocks, each once, in
  the order of their first occurrence; two blocks get the same stage-1 entry exactly when
  they are equal; and the entry of a block seen for the first time is the length, in
  blocks, of the stage 2 built from the table before that block.
\<close>

theorem compress_table_shape:
  assumes "0 < B" and "length table = n * B"
  shows "\<exists>stage1 stage2. compress_table table (int B) = Inr (stage1, stage2)
           \<and> length stage1 = length table div B
           \<and> length stage2 = B * card (set (blocks_of B table))
           \<and> stage2 = concat (first_seen (blocks_of B table))
           \<and> distinct (first_seen (blocks_of B table))
           \<and> set (first_seen (blocks_of B table)) = set (blocks_of B table)
           \<and> sorted_wrt (<)
                (map (\<lambda>b. index_of b (blocks_of B table)) (first_seen (blocks_of B table)))
           \<and> (\<forall>k<n. \<forall>k'<n. stage1 ! k = stage1 ! k' \<longleftrightarrow>
                  blocks_of B table ! k = blocks_of B table ! k')
           \<and> (\<forall>k<n. blocks_of B table ! k \<notin> set (take k (blocks_of B table)) \<longrightarrow>
                  (\<exists>s1 s2. compress_table (take (k * B) table) (int B) = Inr (s1, s2)
                     \<and> stage1 ! k = int (length s2) div int B))"
proof -
  let ?bs = "blocks_of B table"
  let ?fs = "first_seen ?bs"
  let ?stage1 = "map (\<lambda>b. int (index_of b ?fs)) ?bs"
  have len: "length ?bs = n" and lens: "\<forall>b\<in>set ?bs. length b = B"
    using blocks_of_length [OF assms(2,1)] by simp_all
  have lens': "\<forall>b\<in>set ?fs. length b = B"
    using lens by (simp add: set_first_seen)
  have l1: "length ?stage1 = length table div B"
    using assms len by simp
  have "length ?fs = card (set ?bs)"
    using distinct_card [OF distinct_first_seen, of ?bs] by (simp add: set_first_seen)
  then have l2: "length (concat ?fs) = B * card (set ?bs)"
    by (simp add: length_concat_uniform [OF lens'])
  have same: "\<forall>k<n. \<forall>k'<n. ?stage1 ! k = ?stage1 ! k' \<longleftrightarrow> ?bs ! k = ?bs ! k'"
    using len by (simp add: index_of_eq_iff set_first_seen)
  have new: "\<forall>k<n. ?bs ! k \<notin> set (take k ?bs) \<longrightarrow>
      (\<exists>s1 s2. compress_table (take (k * B) table) (int B) = Inr (s1, s2)
         \<and> ?stage1 ! k = int (length s2) div int B)"
  proof (intro allI impI)
    fix k
    assume k: "k < n" and fresh: "?bs ! k \<notin> set (take k ?bs)"
    have kB: "k * B \<le> n * B"
      using k by (intro mult_le_mono1) simp
    have pre: "blocks_of B (take (k * B) table) = take k ?bs"
      using k by (intro blocks_of_take [OF assms]) simp
    have plen: "length (take (k * B) table) = k * B"
      using assms(2) kB by simp
    have run: "compress_table (take (k * B) table) (int B) =
        Inr (map (\<lambda>b. int (index_of b (first_seen (take k ?bs)))) (take k ?bs),
             concat (first_seen (take k ?bs)))"
      using compress_table_blocks [OF assms(1) plen] by (simp only: pre)
    have "\<forall>b\<in>set (first_seen (take k ?bs)). length b = B"
      using lens by (auto simp add: set_first_seen dest: in_set_takeD)
    then have "length (concat (first_seen (take k ?bs))) = B * length (first_seen (take k ?bs))"
      by (rule length_concat_uniform)
    then have "int (length (concat (first_seen (take k ?bs)))) div int B
        = int (length (first_seen (take k ?bs)))"
      using assms(1) by (simp flip: zdiv_int)
    moreover have "?stage1 ! k = int (length (first_seen (take k ?bs)))"
      using k len index_of_first_occurrence [of k ?bs] fresh by simp
    ultimately show "\<exists>s1 s2. compress_table (take (k * B) table) (int B) = Inr (s1, s2)
         \<and> ?stage1 ! k = int (length s2) div int B"
      using run by simp
  qed
  show ?thesis
    unfolding compress_table_blocks [OF assms]
    using l1 l2 same new distinct_first_seen [of ?bs] set_first_seen [of ?bs]
      first_seen_order [of ?bs]
    by blast
qed

theorem compress_table_shape_witness:
  "(0::nat) < 2 \<and> length [7, 7, 8, 9, 7, 7 :: int] = 3 * 2
   \<and> compress_table [7, 7, 8, 9, 7, 7 :: int] 2 = Inr ([0, 1, 0], [7, 7, 8, 9])
   \<and> blocks_of 2 [7, 7, 8, 9, 7, 7 :: int] = [[7, 7], [8, 9], [7, 7]]
   \<and> first_seen [[7, 7], [8, 9], [7, 7 :: int]] = [[7, 7], [8, 9]]
   \<and> [8, 9] \<notin> set (take 1 [[7, 7], [8, 9], [7, 7 :: int]])
   \<and> compress_table (take (1 * 2) [7, 7, 8, 9, 7, 7 :: int]) 2 = Inr ([0], [7, 7])"
proof -
  have h1: "(0::nat) < 2" by simp
  have h2: "length [7, 7, 8, 9, 7, 7 :: int] = 3 * 2" by simp
  have e1: "compress_table [7, 7, 8, 9, 7, 7 :: int] 2 = Inr ([0, 1, 0], [7, 7, 8, 9])"
    by (simp add: compress_table_def range3_def slice_def Let_def upt_rec)
  have e2: "blocks_of 2 [7, 7, 8, 9, 7, 7 :: int] = [[7, 7], [8, 9], [7, 7]]"
    by (simp add: blocks_of_def upt_rec)
  have e3: "compress_table (take (1 * 2) [7, 7, 8, 9, 7, 7 :: int]) 2 = Inr ([0], [7, 7])"
    by (simp add: compress_table_def range3_def slice_def Let_def upt_rec)
  from compress_table_shape [OF h1 h2]
  have "\<exists>stage1 stage2. compress_table [7, 7, 8, 9, 7, 7 :: int] (int 2) = Inr (stage1, stage2)
          \<and> length stage1 = length [7, 7, 8, 9, 7, 7 :: int] div 2"
    by blast
  with e1 e2 e3 show ?thesis by simp
qed

subsection \<open>The record combiner\<close>

lemma combine_loop_rows:
  "combine_loop ts (numbered (first_seen done)) (map (\<lambda>t. int (index_of t (first_seen done))) done)
   = (map (\<lambda>t. int (index_of t (first_seen (done @ ts)))) (done @ ts),
      numbered (first_seen (done @ ts)))"
proof (induction ts arbitrary: "done")
  case Nil
  show ?case by simp
next
  case (Cons t ts)
  show ?case
  proof (cases "t \<in> set done")
    case True
    then have fs: "first_seen (done @ [t]) = first_seen done"
      by (simp add: first_seen_snoc)
    show ?thesis
      using Cons.IH [of "done @ [t]"] True
      by (simp add: map_of_numbered set_first_seen fs)
  next
    case False
    then have fs: "first_seen (done @ [t]) = first_seen done @ [t]"
      by (simp add: first_seen_snoc)
    have notin: "t \<notin> set (first_seen done)"
      using False by (simp add: set_first_seen)
    have upd: "AList.update t (int (length (first_seen done))) (numbered (first_seen done))
        = numbered (first_seen done @ [t])"
      using notin by (simp add: update_absent map_of_numbered numbered_snoc)
    have ids: "map (\<lambda>t. int (index_of t (first_seen done))) done @ [int (length (first_seen done))]
        = map (\<lambda>b. int (index_of b (first_seen done @ [t]))) (done @ [t])"
      using notin by (simp add: index_of_append index_of_snoc set_first_seen)
    show ?thesis
      using Cons.IH [of "done @ [t]"] False
      by (simp add: map_of_numbered set_first_seen Let_def length_numbered upd ids fs)
  qed
qed

lemma combine_tables_rows:
  "combine_tables tables =
     (map (\<lambda>t. int (index_of t (first_seen (zip_star tables)))) (zip_star tables),
      numbered (first_seen (zip_star tables)))"
  using combine_loop_rows [of "zip_star tables" "[]"]
  by (simp add: combine_tables_def numbered_def)

lemma zip_star_rows:
  assumes "tables \<noteq> []" and "\<forall>t\<in>set tables. length t = n"
  shows "zip_star tables = map (\<lambda>i. map (\<lambda>t. t ! i) tables) [0..<n]"
proof -
  have "set (map length tables) = {n}"
    using assms by (cases tables) auto
  then have "min_list (map length tables) = n"
    using assms(1) by (simp add: min_list_Min)
  then show ?thesis
    using assms(1) by (simp add: zip_star_def)
qed

lemma index_of_image:
  assumes "distinct xs"
  shows "(\<lambda>x. index_of x xs) ` set xs = {0..<length xs}"
proof (intro equalityI subsetI)
  fix k
  assume "k \<in> (\<lambda>x. index_of x xs) ` set xs"
  then show "k \<in> {0..<length xs}"
    by (auto simp add: index_of_less)
next
  fix k
  assume "k \<in> {0..<length xs}"
  then have "k < length xs" by simp
  then have "xs ! k \<in> set xs" and "index_of (xs ! k) xs = k"
    using assms by (simp_all add: index_of_nth)
  then show "k \<in> (\<lambda>x. index_of x xs) ` set xs"
    by (metis imageI)
qed

text \<open>
  C2. For \<open>N\<close> tables of the same length \<open>n\<close>, \<open>combine_tables\<close> returns an index with
  one id for each position (none when there is no table); two positions have the same id
  if and only if their tuples agree in every dimension; the ids in the index are exactly
  \<open>0, \<dots>, m - 1\<close> for the number \<open>m\<close> of distinct tuples, which is the number of records;
  and the record dictionary maps the tuple of each position to its id.
\<close>

theorem combine_tables_dedup:
  assumes "\<forall>t\<in>set tables. length t = n" and "combine_tables tables = (index, records)"
  shows "length index = (if tables = [] then 0 else n)
       \<and> (\<forall>i<length index. \<forall>j<length index.
             index ! i = index ! j \<longleftrightarrow> (\<forall>d<length tables. tables ! d ! i = tables ! d ! j))
       \<and> set index = int ` {0..<card ((\<lambda>i. map (\<lambda>t. t ! i) tables) ` {0..<length index})}
       \<and> length records = card ((\<lambda>i. map (\<lambda>t. t ! i) tables) ` {0..<length index})
       \<and> (\<forall>i<length index. map_of records (map (\<lambda>t. t ! i) tables) = Some (index ! i))"
proof -
  let ?rows = "zip_star tables"
  let ?fs = "first_seen ?rows"
  have index: "index = map (\<lambda>t. int (index_of t ?fs)) ?rows"
    and records: "records = numbered ?fs"
    using assms(2) by (simp_all add: combine_tables_rows)
  have li: "length index = length ?rows"
    by (simp add: index)
  have len: "length ?rows = (if tables = [] then 0 else n)"
  proof (cases "tables = []")
    case True
    then show ?thesis by (simp add: zip_star_def)
  next
    case False
    then show ?thesis
      using zip_star_rows [OF False assms(1)] by simp
  qed
  have row: "\<And>i. i < length ?rows \<Longrightarrow> ?rows ! i = map (\<lambda>t. t ! i) tables"
    by (simp add: zip_star_def split: if_splits)
  have rows: "set ?rows = (\<lambda>i. map (\<lambda>t. t ! i) tables) ` {0..<length index}"
  proof -
    have "set ?rows = (\<lambda>i. ?rows ! i) ` {0..<length ?rows}"
      using nth_image [of "length ?rows" ?rows] by simp
    also have "\<dots> = (\<lambda>i. map (\<lambda>t. t ! i) tables) ` {0..<length ?rows}"
      by (intro image_cong) (simp_all add: row)
    finally show ?thesis by (simp only: li)
  qed
  have same: "\<forall>i<length index. \<forall>j<length index.
      index ! i = index ! j \<longleftrightarrow> (\<forall>d<length tables. tables ! d ! i = tables ! d ! j)"
  proof (intro allI impI)
    fix i j
    assume i: "i < length index" and j: "j < length index"
    have "index ! i = index ! j \<longleftrightarrow> ?rows ! i = ?rows ! j"
      using i j by (simp add: index index_of_eq_iff set_first_seen)
    also have "\<dots> \<longleftrightarrow> map (\<lambda>t. t ! i) tables = map (\<lambda>t. t ! j) tables"
      using i j by (simp add: row li)
    also have "\<dots> \<longleftrightarrow> (\<forall>d<length tables. tables ! d ! i = tables ! d ! j)"
      by (simp add: list_eq_iff_nth_eq)
    finally show "index ! i = index ! j \<longleftrightarrow> (\<forall>d<length tables. tables ! d ! i = tables ! d ! j)" .
  qed
  have card: "length ?fs = card (set ?rows)"
    using distinct_card [OF distinct_first_seen, of ?rows] by (simp add: set_first_seen)
  have "set index = int ` (\<lambda>t. index_of t ?fs) ` set ?fs"
    by (simp add: index image_image set_first_seen)
  also have "\<dots> = int ` {0..<length ?fs}"
    by (simp only: index_of_image [OF distinct_first_seen])
  finally have ids: "set index = int ` {0..<card (set ?rows)}"
    by (simp only: card)
  have nrec: "length records = card (set ?rows)"
    by (simp add: records length_numbered card)
  have look: "\<forall>i<length index. map_of records (map (\<lambda>t. t ! i) tables) = Some (index ! i)"
  proof (intro allI impI)
    fix i
    assume i: "i < length index"
    then have "map_of records (?rows ! i) = Some (index ! i)"
      by (simp add: records index map_of_numbered set_first_seen)
    then show "map_of records (map (\<lambda>t. t ! i) tables) = Some (index ! i)"
      using i by (simp add: row li)
  qed
  show ?thesis
    using li len same ids nrec look by (simp only: rows) 
qed

theorem combine_tables_dedup_witness:
  "list_all (\<lambda>t. length t = 4) [[5, 5, 5, 7], [1, 1, 2, 1 :: int]]
   \<and> combine_tables [[5, 5, 5, 7], [1, 1, 2, 1 :: int]]
       = ([0, 0, 1, 2], [([5, 1], 0), ([5, 2], 1), ([7, 1], 2)])
   \<and> length [0, 0, 1, 2 :: int] = 4
   \<and> set [0, 0, 1, 2 :: int] = {0, 1, 2}"
proof -
  have h1: "\<forall>t\<in>set [[5, 5, 5, 7], [1, 1, 2, 1 :: int]]. length t = 4"
    by simp
  have h2: "combine_tables [[5, 5, 5, 7], [1, 1, 2, 1 :: int]]
      = ([0, 0, 1, 2], [([5, 1], 0), ([5, 2], 1), ([7, 1], 2)])"
    by (simp add: combine_tables_def zip_star_def upt_rec)
  from combine_tables_dedup [OF h1 h2]
  have "length [0, 0, 1, 2 :: int] = (if [[5, 5, 5, 7], [1, 1, 2, 1 :: int]] = [] then 0 else 4)"
    by blast
  with h2 show ?thesis by simp
qed

text \<open>
  C9. Combining \<open>[5,5,5,7]\<close> and \<open>[1,1,2,1]\<close> gives the records \<open>(5,1)\<close>, \<open>(5,2)\<close>,
  \<open>(7,1)\<close> with the ids 0, 1, 2 and the index \<open>[0,0,1,2]\<close>; compressing that index with
  block size 2 gives stage 2 \<open>[0,0,1,2]\<close>, of two distinct blocks, and stage 1 \<open>[0,1]\<close>.
\<close>

theorem example_scenario:
  "combine_tables [[5, 5, 5, 7], [1, 1, 2, 1 :: int]]
     = ([0, 0, 1, 2], [([5, 1], 0), ([5, 2], 1), ([7, 1], 2)])
   \<and> compress_table (fst (combine_tables [[5, 5, 5, 7], [1, 1, 2, 1 :: int]])) 2
     = Inr ([0, 1], [0, 0, 1, 2])
   \<and> first_seen (blocks_of 2 (fst (combine_tables [[5, 5, 5, 7], [1, 1, 2, 1 :: int]])))
     = [[0, 0], [1, 2]]"
proof -
  have c: "combine_tables [[5, 5, 5, 7], [1, 1, 2, 1 :: int]]
      = ([0, 0, 1, 2], [([5, 1], 0), ([5, 2], 1), ([7, 1], 2)])"
    by (simp add: combine_tables_def zip_star_def upt_rec)
  have "compress_table [0, 0, 1, 2 :: int] 2 = Inr ([0, 1], [0, 0, 1, 2])"
    by (simp add: compress_table_def range3_def slice_def Let_def upt_rec)
  moreover have "first_seen (blocks_of 2 [0, 0, 1, 2 :: int]) = [[0, 0], [1, 2]]"
    by (simp add: blocks_of_def upt_rec)
  ultimately show ?thesis
    by (simp add: c)
qed

subsection \<open>The block-size optimizer\<close>

lemma block_sizes_list: "block_sizes = [32, 64, 128, 256, 512]"
  by (simp add: block_sizes_def range2_def upt_rec)

lemma fold_min_le: "fold min xs (m::int) \<le> m"
proof (induction xs arbitrary: m)
  case Nil
  show ?case by simp
next
  case (Cons x xs)
  have "fold min xs (min x m) \<le> min x m" by (rule Cons.IH)
  also have "\<dots> \<le> m" by simp
  finally show ?case by simp
qed

lemma get_tables_size_Inr:
  assumes "get_tables_size [s1, s2] = Inr t"
  shows "\<exists>nm1 w1 nm2 w2. get_type_size s1 = Inr (nm1, w1) \<and> get_type_size s2 = Inr (nm2, w2)
           \<and> t = w1 * int (length s1) + w2 * int (length s2)"
proof (cases "get_type_size s1")
  case (Inl e)
  with assms show ?thesis by (simp add: get_tables_size_def)
next
  case (Inr k1)
  obtain nm1 w1 where k1: "k1 = (nm1, w1)" by (cases k1)
  show ?thesis
  proof (cases "get_type_size s2")
    case (Inl e)
    with assms Inr k1 show ?thesis by (simp add: get_tables_size_def)
  next
    case r2: (Inr k2)
    obtain nm2 w2 where k2: "k2 = (nm2, w2)" by (cases k2)
    from assms Inr k1 r2 k2 show ?thesis by (simp add: get_tables_size_def)
  qed
qed

lemma evaluate_score:
  assumes "evaluate table n rs b = Inr (sz, s1, s2)"
  shows "\<exists>nm1 w1 nm2 w2. compress_table table b = Inr (s1, s2)
           \<and> get_type_size s1 = Inr (nm1, w1) \<and> get_type_size s2 = Inr (nm2, w2)
           \<and> sz = n * rs + w1 * int (length s1) + w2 * int (length s2)"
proof (cases "compress_table table b")
  case (Inl e)
  with assms show ?thesis by (simp add: evaluate_def)
next
  case (Inr p)
  obtain a1 a2 where p: "p = (a1, a2)" by (cases p)
  show ?thesis
  proof (cases "get_tables_size [a1, a2]")
    case (Inl e)
    with assms Inr p show ?thesis by (simp add: evaluate_def)
  next
    case t: (Inr t)
    from assms Inr p t have eq: "sz = n * rs + t" "s1 = a1" "s2 = a2"
      by (simp_all add: evaluate_def)
    from get_tables_size_Inr [OF t] eq Inr p show ?thesis
      by auto
  qed
qed

lemma fold_min_le_elem: "x \<in> set xs \<Longrightarrow> fold min xs (m::int) \<le> x"
proof (induction xs arbitrary: m)
  case Nil
  then show ?case by simp
next
  case (Cons y ys)
  show ?case
  proof (cases "x = y")
    case True
    have "fold min ys (min y m) \<le> min y m" by (rule fold_min_le)
    also have "\<dots> \<le> x" using True by simp
    finally show ?thesis by simp
  next
    case False
    then have "x \<in> set ys" using Cons.prems by simp
    then have "fold min ys (min y m) \<le> x" by (rule Cons.IH)
    then show ?thesis by simp
  qed
qed

lemma optimize_loop_result:
  assumes "\<forall>b\<in>set cs. evaluate table n rs b = Inr (sz b, st1 b, st2 b)"
  shows "optimize_loop table n rs cs (m, best) =
           Inr (fold min (map sz cs) m,
                if fold min (map sz cs) m < m
                then map_option (\<lambda>b. (st1 b, st2 b, b)) (find (\<lambda>b. sz b = fold min (map sz cs) m) cs)
                else best)"
  using assms
proof (induction cs arbitrary: m best)
  case Nil
  show ?case by simp
next
  case (Cons c cs)
  have ev: "evaluate table n rs c = Inr (sz c, st1 c, st2 c)"
    and rest: "\<forall>b\<in>set cs. evaluate table n rs b = Inr (sz b, st1 b, st2 b)"
    using Cons.prems by simp_all
  show ?case
  proof (cases "sz c < m")
    case True
    define M where "M = fold min (map sz cs) (sz c)"
    have "min (sz c) m = sz c" using True by (simp add: min_def)
    then have M: "fold min (map sz (c # cs)) m = M" by (simp add: M_def)
    have le: "M \<le> sz c" unfolding M_def by (rule fold_min_le)
    have lt: "M < m" using le True by simp
    have "optimize_loop table n rs (c # cs) (m, best)
        = optimize_loop table n rs cs (sz c, Some (st1 c, st2 c, c))"
      using True by (simp add: ev)
    also have "\<dots> = Inr (M, if M < sz c
        then map_option (\<lambda>b. (st1 b, st2 b, b)) (find (\<lambda>b. sz b = M) cs)
        else Some (st1 c, st2 c, c))"
      unfolding M_def by (rule Cons.IH [OF rest])
    also have "(if M < sz c
        then map_option (\<lambda>b. (st1 b, st2 b, b)) (find (\<lambda>b. sz b = M) cs)
        else Some (st1 c, st2 c, c))
      = map_option (\<lambda>b. (st1 b, st2 b, b)) (find (\<lambda>b. sz b = M) (c # cs))"
      using le by auto
    finally show ?thesis
      using lt by (simp only: M if_True)
  next
    case False
    define M where "M = fold min (map sz cs) m"
    have "min (sz c) m = m" using False by (simp add: min_def)
    then have M: "fold min (map sz (c # cs)) m = M" by (simp add: M_def)
    have "optimize_loop table n rs (c # cs) (m, best)
        = optimize_loop table n rs cs (m, best)"
      using False by (simp add: ev)
    also have "\<dots> = Inr (M, if M < m
        then map_option (\<lambda>b. (st1 b, st2 b, b)) (find (\<lambda>b. sz b = M) cs)
        else best)"
      unfolding M_def by (rule Cons.IH [OF rest])
    also have "(if M < m
        then map_option (\<lambda>b. (st1 b, st2 b, b)) (find (\<lambda>b. sz b = M) cs)
        else best)
      = (if M < m
        then map_option (\<lambda>b. (st1 b, st2 b, b)) (find (\<lambda>b. sz b = M) (c # cs))
        else best)"
      using False by auto
    finally show ?thesis
      by (simp only: M)
  qed
qed

lemma fold_min_cases: "fold min xs (m::int) = m \<or> fold min xs m \<in> set xs"
proof (induction xs arbitrary: m)
  case Nil
  show ?case by simp
next
  case (Cons x xs)
  from Cons.IH [of "min x m"] show ?case
    by (auto simp add: min_def split: if_splits)
qed

lemma type_loop_unsigned:
  "0 \<le> m \<Longrightarrow> M \<le> 4294967295 \<Longrightarrow> \<exists>k. type_loop m M 0 limits = Inr k"
  by (simp add: limits_def)

lemma get_type_size_unsigned:
  assumes "table \<noteq> []" and "\<forall>x\<in>set table. 0 \<le> x \<and> x \<le> 4294967295"
  shows "\<exists>k. get_type_size table = Inr k"
proof -
  have "0 \<le> Min (set table)"
    using assms by (intro Min_lower) simp_all
  moreover have "Max (set table) \<le> 4294967295"
    using assms by (intro Max_upper) simp_all
  ultimately have "\<exists>k. type_loop (Min (set table)) (Max (set table)) 0 limits = Inr k"
    by (rule type_loop_unsigned)
  then show ?thesis
    by (simp only: get_type_size_loop [OF assms(1)])
qed

lemma set_blocks_of: "b \<in> set (blocks_of B table) \<Longrightarrow> set b \<subseteq> set table"
proof -
  assume "b \<in> set (blocks_of B table)"
  then obtain k where "b = take B (drop (k * B) table)"
    by (auto simp add: blocks_of_def)
  then show "set b \<subseteq> set table"
    using set_take_subset [of B "drop (k * B) table"] set_drop_subset [of "k * B" table]
    by blast
qed

lemma evaluate_defined:
  assumes ne: "table \<noteq> []" and B: "0 < B" and len: "length table = n * B"
    and vals: "\<forall>x\<in>set table. 0 \<le> x \<and> x \<le> 4294967295"
    and fits: "int (length table) \<le> 4294967295"
  shows "\<exists>r. evaluate table n_records record_size (int B) = Inr r"
proof -
  let ?bs = "blocks_of B table"
  let ?fs = "first_seen ?bs"
  let ?s1 = "map (\<lambda>b. int (index_of b ?fs)) ?bs"
  let ?s2 = "concat ?fs"
  have comp: "compress_table table (int B) = Inr (?s1, ?s2)"
    using B len by (rule compress_table_blocks)
  have lbs: "length ?bs = n" and lens: "\<forall>b\<in>set ?bs. length b = B"
    using blocks_of_length [OF len B] by simp_all
  have n: "0 < n"
    using ne len by (cases n) simp_all
  have bs: "?bs \<noteq> []"
    using lbs n by auto
  have "n \<le> n * B"
    using B by simp
  then have "int n \<le> int (length table)"
    unfolding len by (rule iffD2 [OF of_nat_le_iff])
  then have nle: "int n \<le> 4294967295"
    using fits by (rule order_trans)
  have "length ?fs = card (set ?bs)"
    using distinct_card [OF distinct_first_seen, of ?bs] by (simp add: set_first_seen)
  also have "\<dots> \<le> length ?bs"
    by (rule card_length)
  finally have lfs: "length ?fs \<le> n"
    using lbs by simp
  have s1: "?s1 \<noteq> []"
    using bs by simp
  have v1: "\<forall>x\<in>set ?s1. 0 \<le> x \<and> x \<le> 4294967295"
  proof
    fix x
    assume "x \<in> set ?s1"
    then obtain b where b: "b \<in> set ?bs" and x: "x = int (index_of b ?fs)"
      by auto
    have "index_of b ?fs < length ?fs"
      using b by (intro index_of_less) (simp add: set_first_seen)
    then have "index_of b ?fs < n"
      using lfs by simp
    then show "0 \<le> x \<and> x \<le> 4294967295"
      using x nle by simp
  qed
  have fs: "?fs \<noteq> []"
    using bs set_first_seen [of ?bs] by (cases ?fs) auto
  have "length ?s2 = B * length ?fs"
    using lens by (intro length_concat_uniform) (simp add: set_first_seen)
  then have s2: "?s2 \<noteq> []"
    using B fs by (cases ?s2) simp_all
  have v2: "\<forall>x\<in>set ?s2. 0 \<le> x \<and> x \<le> 4294967295"
  proof
    fix x
    assume "x \<in> set ?s2"
    then obtain b where "b \<in> set ?bs" and "x \<in> set b"
      by (auto simp add: set_first_seen)
    then have "x \<in> set table"
      using set_blocks_of by blast
    then show "0 \<le> x \<and> x \<le> 4294967295"
      using vals by simp
  qed
  obtain k1 k2 where k: "get_type_size ?s1 = Inr k1" "get_type_size ?s2 = Inr k2"
    using get_type_size_unsigned [OF s1 v1] get_type_size_unsigned [OF s2 v2] by blast
  obtain nm1 w1 nm2 w2 where kk: "k1 = (nm1, w1)" "k2 = (nm2, w2)"
    by (cases k1, cases k2)
  show ?thesis
    by (simp add: evaluate_def comp get_tables_size_def k kk)
qed

lemma block_sizes_defined:
  assumes "table \<noteq> []" and "\<forall>x\<in>set table. 0 \<le> x \<and> x \<le> 4294967295"
    and "512 dvd length table" and "int (length table) \<le> 4294967295"
  shows "\<forall>b\<in>set block_sizes. \<exists>r. evaluate table n_records record_size b = Inr r"
proof
  fix b
  assume "b \<in> set block_sizes"
  then obtain B :: nat where b: "b = int B" and B: "0 < B" "B dvd 512"
    by (auto simp add: block_sizes_list intro: that [of 32] that [of 64] that [of 128]
        that [of 256] that [of 512])
  have "B dvd length table"
    using B(2) assms(3) by (rule dvd_trans)
  then obtain n where "length table = n * B"
    by (auto simp add: dvd_def mult.commute)
  then show "\<exists>r. evaluate table n_records record_size b = Inr r"
    unfolding b using assms(1,2,4) B(1) by (intro evaluate_defined) simp_all
qed

text \<open>
  C6. The candidates are 32, 64, 128, 256, 512, tried in this order. The size of a candidate
  is the number of records times the record size, plus the stage-1 length times its
  resolved width, plus the stage-2 length times its resolved width. When every candidate
  has a size (as it has for the tables of \<open>block_sizes_defined\<close>) and some size is
  below \<open>sys.maxint\<close>, the search returns a candidate, with its size and stages, such
  that no candidate has a smaller size and every candidate tried before it has a strictly
  larger one.
\<close>

theorem optimum_minimal:
  assumes ev: "\<forall>b\<in>set block_sizes. evaluate table n rs b = Inr (sz b, st1 b, st2 b)"
    and lt: "\<exists>b\<in>set block_sizes. sz b < maxint"
  shows "block_sizes = [32, 64, 128, 256, 512]
       \<and> (\<forall>b\<in>set block_sizes. \<exists>nm1 w1 nm2 w2.
             compress_table table b = Inr (st1 b, st2 b)
             \<and> get_type_size (st1 b) = Inr (nm1, w1) \<and> get_type_size (st2 b) = Inr (nm2, w2)
             \<and> sz b = n * rs + w1 * int (length (st1 b)) + w2 * int (length (st2 b)))
       \<and> (\<exists>i<length block_sizes.
             optimum maxint table n rs
               = Inr (sz (block_sizes ! i), st1 (block_sizes ! i), st2 (block_sizes ! i),
                      block_sizes ! i)
             \<and> (\<forall>b\<in>set block_sizes. sz (block_sizes ! i) \<le> sz b)
             \<and> (\<forall>j<i. sz (block_sizes ! i) < sz (block_sizes ! j)))"
proof (intro conjI)
  show "block_sizes = [32, 64, 128, 256, 512]"
    by (rule block_sizes_list)
next
  show "\<forall>b\<in>set block_sizes. \<exists>nm1 w1 nm2 w2.
             compress_table table b = Inr (st1 b, st2 b)
             \<and> get_type_size (st1 b) = Inr (nm1, w1) \<and> get_type_size (st2 b) = Inr (nm2, w2)
             \<and> sz b = n * rs + w1 * int (length (st1 b)) + w2 * int (length (st2 b))"
    using ev evaluate_score by blast
next
  define M where "M = fold min (map sz block_sizes) maxint"
  have least: "\<forall>b\<in>set block_sizes. M \<le> sz b"
    unfolding M_def by (simp add: fold_min_le_elem)
  obtain b0 where b0: "b0 \<in> set block_sizes" "sz b0 < maxint"
    using lt by blast
  have Mlt: "M < maxint"
    using least b0 by fastforce
  then have "M \<in> set (map sz block_sizes)"
    using fold_min_cases [of "map sz block_sizes" maxint] unfolding M_def by simp
  then have "\<exists>b\<in>set block_sizes. sz b = M"
    by auto
  then obtain b where f: "find (\<lambda>b. sz b = M) block_sizes = Some b"
    by (cases "find (\<lambda>b. sz b = M) block_sizes") (auto simp add: find_None_iff)
  then obtain i where i: "i < length block_sizes" "b = block_sizes ! i" "sz b = M"
      "\<forall>j<i. sz (block_sizes ! j) \<noteq> M"
    unfolding find_Some_iff by blast
  have "optimize_loop table n rs block_sizes (maxint, None)
      = Inr (M, if M < maxint
           then map_option (\<lambda>b. (st1 b, st2 b, b)) (find (\<lambda>b. sz b = M) block_sizes)
           else None)"
    unfolding M_def by (rule optimize_loop_result [OF ev])
  then have opt: "optimum maxint table n rs = Inr (sz b, st1 b, st2 b, b)"
    using Mlt f i(3) by (simp add: optimum_def)
  have before: "\<forall>j<i. sz (block_sizes ! i) < sz (block_sizes ! j)"
  proof (intro allI impI)
    fix j
    assume j: "j < i"
    then have "block_sizes ! j \<in> set block_sizes"
      using i(1) by simp
    then have "M \<le> sz (block_sizes ! j)"
      using least by blast
    moreover have "sz (block_sizes ! j) \<noteq> M"
      using i(4) j by blast
    ultimately show "sz (block_sizes ! i) < sz (block_sizes ! j)"
      using i(2,3) by simp
  qed
  have Mi: "sz (block_sizes ! i) = M"
    using i(2,3) by simp
  have opt': "optimum maxint table n rs
      = Inr (sz (block_sizes ! i), st1 (block_sizes ! i), st2 (block_sizes ! i), block_sizes ! i)"
    using opt i(2) by simp
  have least': "\<forall>b\<in>set block_sizes. sz (block_sizes ! i) \<le> sz b"
    using least by (simp only: Mi)
  show "\<exists>i<length block_sizes.
             optimum maxint table n rs
               = Inr (sz (block_sizes ! i), st1 (block_sizes ! i), st2 (block_sizes ! i),
                      block_sizes ! i)
             \<and> (\<forall>b\<in>set block_sizes. sz (block_sizes ! i) \<le> sz b)
             \<and> (\<forall>j<i. sz (block_sizes ! i) < sz (block_sizes ! j))"
    using i(1) opt' least' before by (intro exI [of _ i] conjI)
qed

theorem optimum_minimal_witness:
  "evaluate (replicate 32 0 @ replicate 32 1) 3 4 32
     = Inr (78, [0, 1], replicate 32 0 @ replicate 32 1)
   \<and> evaluate (replicate 32 0 @ replicate 32 1) 3 4 64
     = Inr (77, [0], replicate 32 0 @ replicate 32 1)
   \<and> evaluate (replicate 32 0 @ replicate 32 1) 3 4 128
     = Inr (77, [0], replicate 32 0 @ replicate 32 1)
   \<and> evaluate (replicate 32 0 @ replicate 32 1) 3 4 256
     = Inr (77, [0], replicate 32 0 @ replicate 32 1)
   \<and> evaluate (replicate 32 0 @ replicate 32 1) 3 4 512
     = Inr (77, [0], replicate 32 0 @ replicate 32 1)
   \<and> (77::int) < 2147483647
   \<and> optimum 2147483647 (replicate 32 0 @ replicate 32 1) 3 4
     = Inr (77, [0], replicate 32 0 @ replicate 32 1, 64)"
proof -
  let ?T = "replicate 32 0 @ replicate 32 (1::int)"
  let ?sz = "\<lambda>b::int. if b = 32 then 78 else (77::int)"
  let ?st1 = "\<lambda>b::int. if b = 32 then [0, 1] else [0::int]"
  let ?st2 = "\<lambda>b::int. ?T"
  have e:
    "evaluate ?T 3 4 32 = Inr (78, [0, 1], ?T)"
    "evaluate ?T 3 4 64 = Inr (77, [0], ?T)"
    "evaluate ?T 3 4 128 = Inr (77, [0], ?T)"
    "evaluate ?T 3 4 256 = Inr (77, [0], ?T)"
    "evaluate ?T 3 4 512 = Inr (77, [0], ?T)"
    by (simp_all add: evaluate_def compress_table_def range3_def upt_rec slice_def Let_def
        get_tables_size_def get_type_size_loop type_loop_small)
  have h1: "\<forall>b\<in>set block_sizes. evaluate ?T 3 4 b = Inr (?sz b, ?st1 b, ?st2 b)"
    using e by (simp add: block_sizes_list)
  have h2: "\<exists>b\<in>set block_sizes. ?sz b < 2147483647"
    by (simp add: block_sizes_list)
  from optimum_minimal [OF h1 h2]
  obtain i where i: "i < length block_sizes"
    "optimum 2147483647 ?T 3 4
       = Inr (?sz (block_sizes ! i), ?st1 (block_sizes ! i), ?st2 (block_sizes ! i),
              block_sizes ! i)"
    "\<forall>b\<in>set block_sizes. ?sz (block_sizes ! i) \<le> ?sz b"
    "\<forall>j<i. ?sz (block_sizes ! i) < ?sz (block_sizes ! j)"
    by blast
  have "i = 1"
  proof -
    have "?sz (block_sizes ! i) \<le> ?sz 64"
      using i(3) by (simp add: block_sizes_list)
    then have "block_sizes ! i \<noteq> 32"
      by (simp split: if_splits)
    then have "i \<noteq> 0"
      by (cases i) (simp_all add: block_sizes_list)
    moreover have "\<not> 1 < i"
    proof
      assume "1 < i"
      then have "?sz (block_sizes ! i) < ?sz (block_sizes ! 1)"
        using i(4) by blast
      then show False
        by (simp add: block_sizes_list split: if_splits)
    qed
    ultimately show ?thesis by linarith
  qed
  with i(2) have "optimum 2147483647 ?T 3 4 = Inr (77, [0], ?T, 64)"
    by (simp add: block_sizes_list)
  with e show ?thesis by simp
qed

subsection \<open>The dense table builder\<close>

lemma setitem_Inr:
  assumes "0 \<le> i" and "setitem xs i v = Inr t"
  shows "nat i < length xs" and "t = xs[nat i := v]"
  using assms by (auto simp add: setitem_def split: if_splits)

lemma setitem_in_range:
  "0 \<le> i \<Longrightarrow> i < int (length xs) \<Longrightarrow> setitem xs i v = Inr (xs[nat i := v])"
  by (simp add: setitem_def)

lemma assign_loop_result:
  "\<forall>i\<in>set ns. 0 \<le> i \<Longrightarrow> assign_loop table ns v = Inr table' \<Longrightarrow>
   length table' = length table
   \<and> (\<forall>c<length table. table' ! c = (if int c \<in> set ns then v else table ! c))"
proof (induction ns arbitrary: table)
  case Nil
  then show ?case by simp
next
  case (Cons i ns)
  have i: "0 \<le> i" and ns: "\<forall>i\<in>set ns. 0 \<le> i"
    using Cons.prems(1) by simp_all
  obtain t1 where t1: "setitem table i v = Inr t1" and rest: "assign_loop t1 ns v = Inr table'"
    using Cons.prems(2) by (cases "setitem table i v") simp_all
  have t1': "t1 = table[nat i := v]" and inr: "nat i < length table"
    using setitem_Inr [OF i t1] by simp_all
  have IH: "length table' = length t1
      \<and> (\<forall>c<length t1. table' ! c = (if int c \<in> set ns then v else t1 ! c))"
    using Cons.IH [OF ns rest] .
  show ?case
  proof (intro conjI allI impI)
    show "length table' = length table"
      using IH t1' by simp
  next
    fix c
    assume c: "c < length table"
    have "int c = i \<longleftrightarrow> c = nat i"
      using i by auto
    then show "table' ! c = (if int c \<in> set (i # ns) then v else table ! c)"
      using IH c t1' by (auto simp add: nth_list_update)
  qed
qed

lemma assign_loop_total:
  "\<forall>i\<in>set ns. 0 \<le> i \<and> i < int (length table) \<Longrightarrow> \<exists>table'. assign_loop table ns v = Inr table'"
proof (induction ns arbitrary: table)
  case Nil
  show ?case by simp
next
  case (Cons i ns)
  have "setitem table i v = Inr (table[nat i := v])"
    using Cons.prems by (simp add: setitem_in_range)
  moreover have "\<exists>table'. assign_loop (table[nat i := v]) ns v = Inr table'"
    using Cons.prems by (intro Cons.IH) simp
  ultimately show ?case by simp
qed

lemma set_range2: "set (range2 start stop) = {start..<stop}"
proof (intro equalityI subsetI)
  fix x
  assume "x \<in> set (range2 start stop)"
  then show "x \<in> {start..<stop}"
    by (auto simp add: range2_def)
next
  fix x
  assume x: "x \<in> {start..<stop}"
  then have "nat (x - start) < nat (stop - start)" and "x = start + int (nat (x - start))"
    by auto
  then show "x \<in> set (range2 start stop)"
    unfolding range2_def set_map set_upt by (metis atLeastLessThan_iff imageI le0)
qed

lemma hex_digit_nonneg: "0 \<le> hex_digit c"
  by (simp add: hex_digit_def)

lemma fold_hex_nonneg: "0 \<le> n \<Longrightarrow> 0 \<le> fold (\<lambda>c n. n * 16 + hex_digit c) s n"
proof (induction s arbitrary: n)
  case Nil
  then show ?case by simp
next
  case (Cons c s)
  have "0 \<le> n * 16 + hex_digit c"
    using Cons.prems hex_digit_nonneg [of c] by simp
  then show ?case
    using Cons.IH by simp
qed

lemma int16_nonneg: "0 \<le> int16 s"
  by (simp add: int16_def fold_hex_nonneg)

lemma parse_line_Some:
  assumes "parse_line get_value line = Inr (Some (s, e, v))"
  shows "\<exists>g1 g3. re_match (map strip (split CHR '';'' (sub_comment False line)) ! 0) = Some (g1, g3)
           \<and> s = int16 g1 \<and> e = (case g3 of None \<Rightarrow> s | Some g \<Rightarrow> int16 g)"
  using assms
  by (auto simp add: parse_line_def Let_def
      split: if_split_asm sum.split_asm option.split_asm prod.split_asm)

lemma parse_line_nonneg: "parse_line get_value line = Inr (Some (s, e, v)) \<Longrightarrow> 0 \<le> s"
  using parse_line_Some [of get_value line s e v] int16_nonneg by auto

lemma assignments_simps:
  "assignments [] = []"
  "assignments (None # ps) = assignments ps"
  "assignments (Some a # ps) = a # assignments ps"
  by (simp_all add: assignments_def)

lemma find_snoc:
  "find P (xs @ [x]) = (case find P xs of None \<Rightarrow> (if P x then Some x else None) | Some y \<Rightarrow> Some y)"
  by (induction xs) simp_all

lemma last_write_Cons:
  "last_write (a # asgs) d c = last_write asgs (if covering c a then snd (snd a) else d) c"
  by (simp add: last_write_def find_snoc split: option.splits)

lemma last_write_Nil: "last_write [] d c = d"
  by (simp add: last_write_def)

lemma read_loop_result:
  "read_loop get_value lns table = Inr table' \<Longrightarrow>
   \<exists>ps. map_err (parse_line get_value) lns = Inr ps
     \<and> length table' = length table
     \<and> (\<forall>c<length table. table' ! c = last_write (assignments ps) (table ! c) (int c))"
proof (induction lns arbitrary: table)
  case Nil
  then show ?case by (simp add: assignments_simps last_write_Nil)
next
  case (Cons line rest)
  show ?case
  proof (cases "parse_line get_value line")
    case (Inl e)
    with Cons.prems show ?thesis by simp
  next
    case (Inr p)
    show ?thesis
    proof (cases p)
      case None
      with Inr Cons.prems have "read_loop get_value rest table = Inr table'"
        by simp
      from Cons.IH [OF this] obtain ps where
        ps: "map_err (parse_line get_value) rest = Inr ps"
          "length table' = length table"
          "\<forall>c<length table. table' ! c = last_write (assignments ps) (table ! c) (int c)"
        by blast
      have "map_err (parse_line get_value) (line # rest) = Inr (None # ps)"
        using Inr None ps(1) by simp
      then show ?thesis
        using ps(2,3) by (simp add: assignments_simps)
    next
      case (Some a)
      obtain s e v where a: "a = (s, e, v)" by (cases a)
      have parse: "parse_line get_value line = Inr (Some (s, e, v))"
        using Inr Some a by simp
      have s0: "0 \<le> s"
        using parse by (rule parse_line_nonneg)
      obtain t1 where t1: "assign_loop table (range2 s (e + 1)) v = Inr t1"
        and rest: "read_loop get_value rest t1 = Inr table'"
        using Cons.prems parse by (cases "assign_loop table (range2 s (e + 1)) v") simp_all
      have nonneg: "\<forall>i\<in>set (range2 s (e + 1)). 0 \<le> i"
        using s0 by (simp add: set_range2)
      have t1': "length t1 = length table"
        "\<forall>c<length table. t1 ! c = (if covering (int c) a then v else table ! c)"
        using assign_loop_result [OF nonneg t1] by (simp_all add: set_range2 covering_def a)
      from Cons.IH [OF rest] obtain ps where
        ps: "map_err (parse_line get_value) rest = Inr ps"
          "length table' = length t1"
          "\<forall>c<length t1. table' ! c = last_write (assignments ps) (t1 ! c) (int c)"
        by blast
      have "map_err (parse_line get_value) (line # rest) = Inr (Some a # ps)"
        using parse a ps(1) by simp
      moreover have "length table' = length table"
        using ps(2) t1'(1) by simp
      moreover have "\<forall>c<length table.
          table' ! c = last_write (assignments (Some a # ps)) (table ! c) (int c)"
        using ps(3) t1' by (simp add: assignments_simps last_write_Cons a)
      ultimately show ?thesis by blast
    qed
  qed
qed

lemma read_loop_total:
  "map_err (parse_line get_value) lns = Inr ps \<Longrightarrow>
   \<forall>a\<in>set (assignments ps). fst a \<le> fst (snd a) \<longrightarrow> fst (snd a) < int (length table) \<Longrightarrow>
   \<exists>table'. read_loop get_value lns table = Inr table'"
proof (induction lns arbitrary: table ps)
  case Nil
  show ?case by simp
next
  case (Cons line rest)
  obtain p where p: "parse_line get_value line = Inr p"
    using Cons.prems(1) by (cases "parse_line get_value line") simp_all
  obtain ps' where ps': "map_err (parse_line get_value) rest = Inr ps'"
    using Cons.prems(1) p by (cases "map_err (parse_line get_value) rest") simp_all
  have ps: "ps = p # ps'"
    using Cons.prems(1) p ps' by simp
  show ?case
  proof (cases p)
    case None
    have "\<forall>a\<in>set (assignments ps'). fst a \<le> fst (snd a) \<longrightarrow> fst (snd a) < int (length table)"
      using Cons.prems(2) ps None by (simp add: assignments_simps)
    then have "\<exists>table'. read_loop get_value rest table = Inr table'"
      by (rule Cons.IH [OF ps'])
    then show ?thesis
      using p None by simp
  next
    case (Some a)
    obtain s e v where a: "a = (s, e, v)" by (cases a)
    have parse: "parse_line get_value line = Inr (Some (s, e, v))"
      using p Some a by simp
    have s0: "0 \<le> s"
      using parse by (rule parse_line_nonneg)
    have fit: "s \<le> e \<longrightarrow> e < int (length table)"
      using Cons.prems(2) ps Some a by (simp add: assignments_simps)
    have "\<forall>i\<in>set (range2 s (e + 1)). 0 \<le> i \<and> i < int (length table)"
      using s0 fit by (auto simp add: set_range2)
    then have "\<exists>t1. assign_loop table (range2 s (e + 1)) v = Inr t1"
      by (rule assign_loop_total)
    then obtain t1 where t1: "assign_loop table (range2 s (e + 1)) v = Inr t1" ..
    have nonneg: "\<forall>i\<in>set (range2 s (e + 1)). 0 \<le> i"
      using s0 by (simp add: set_range2)
    have len: "length t1 = length table"
      using assign_loop_result [OF nonneg t1] by simp
    have "\<forall>a\<in>set (assignments ps'). fst a \<le> fst (snd a) \<longrightarrow> fst (snd a) < int (length t1)"
      using Cons.prems(2) ps Some by (simp add: assignments_simps len)
    then have "\<exists>table'. read_loop get_value rest t1 = Inr table'"
      by (rule Cons.IH [OF ps'])
    then show ?thesis
      using parse t1 by simp
  qed
qed

text \<open>
  C7. A table that \<open>read_table\<close> returns has length \<open>MAX_UNICODE = 0x110000\<close>, and at
  every code point it holds the value of the last assignment of the file, in input order,
  whose range from the first to the last code point covers it, or the default value when
  there is none; the last code point of an assignment is its first one when the line gives
  no second. \<open>read_table\<close> returns a table whenever every line parses and every non-empty
  range ends below \<open>MAX_UNICODE\<close>.
\<close>

theorem read_table_last_write:
  "(\<forall>table. read_table lns get_value d = Inr table \<longrightarrow>
      length table = MAX_UNICODE
      \<and> (\<exists>ps. map_err (parse_line get_value) lns = Inr ps
            \<and> (\<forall>c<MAX_UNICODE. table ! c = last_write (assignments ps) d (int c))))
   \<and> (\<forall>ps. map_err (parse_line get_value) lns = Inr ps
          \<and> (\<forall>a\<in>set (assignments ps). fst a \<le> fst (snd a) \<longrightarrow> fst (snd a) < int MAX_UNICODE)
        \<longrightarrow> (\<exists>table. read_table lns get_value d = Inr table))
   \<and> (\<forall>line s e v. parse_line get_value line = Inr (Some (s, e, v)) \<longrightarrow>
          (\<exists>g1 g3. re_match (map strip (split CHR '';'' (sub_comment False line)) ! 0) = Some (g1, g3)
             \<and> s = int16 g1 \<and> e = (case g3 of None \<Rightarrow> s | Some g \<Rightarrow> int16 g)))
   \<and> MAX_UNICODE = 0x110000"
proof (intro conjI allI impI)
  fix table
  assume "read_table lns get_value d = Inr table"
  then have run: "read_loop get_value lns (replicate MAX_UNICODE d) = Inr table"
    by (simp add: read_table_def)
  from read_loop_result [OF run] obtain ps where
    ps: "map_err (parse_line get_value) lns = Inr ps"
      "length table = length (replicate MAX_UNICODE d)"
      "\<forall>c<length (replicate MAX_UNICODE d).
         table ! c = last_write (assignments ps) (replicate MAX_UNICODE d ! c) (int c)"
    by blast
  show "length table = MAX_UNICODE"
    using ps(2) by simp
  have "\<forall>c<MAX_UNICODE. table ! c = last_write (assignments ps) d (int c)"
    using ps(3) by simp
  then show "\<exists>ps. map_err (parse_line get_value) lns = Inr ps
            \<and> (\<forall>c<MAX_UNICODE. table ! c = last_write (assignments ps) d (int c))"
    using ps(1) by blast
next
  fix ps
  assume a: "map_err (parse_line get_value) lns = Inr ps
          \<and> (\<forall>a\<in>set (assignments ps). fst a \<le> fst (snd a) \<longrightarrow> fst (snd a) < int MAX_UNICODE)"
  then have "\<forall>a\<in>set (assignments ps).
      fst a \<le> fst (snd a) \<longrightarrow> fst (snd a) < int (length (replicate MAX_UNICODE d))"
    by simp
  with a have "\<exists>table. read_loop get_value lns (replicate MAX_UNICODE d) = Inr table"
    by (intro read_loop_total [of get_value lns ps]) simp_all
  then show "\<exists>table. read_table lns get_value d = Inr table"
    by (simp add: read_table_def)
next
  fix line s e v
  assume "parse_line get_value line = Inr (Some (s, e, v))"
  then show "\<exists>g1 g3. re_match (map strip (split CHR '';'' (sub_comment False line)) ! 0) = Some (g1, g3)
             \<and> s = int16 g1 \<and> e = (case g3 of None \<Rightarrow> s | Some g \<Rightarrow> int16 g)"
    by (rule parse_line_Some)
next
  show "MAX_UNICODE = 0x110000"
    by (simp add: MAX_UNICODE_def)
qed


theorem read_table_last_write_witness:
  "read_table [''# Scripts\<newline>'', ''0041..0043 ; Latin # L&\<newline>'', ''0042 ; Greek\<newline>'']
       (\<lambda>chardata. Inr (chardata ! 1)) ''Common''
     = Inr ((replicate MAX_UNICODE ''Common'')
              [65 := ''Latin'', 66 := ''Latin'', 67 := ''Latin'', 66 := ''Greek''])
   \<and> map_err (parse_line (\<lambda>chardata. Inr (chardata ! 1)))
         [''# Scripts\<newline>'', ''0041..0043 ; Latin # L&\<newline>'', ''0042 ; Greek\<newline>'']
     = Inr [None, Some (65, 67, ''Latin''), Some (66, 66, ''Greek'')]
   \<and> (67::int) < int MAX_UNICODE
   \<and> last_write (assignments [None, Some (65, 67, ''Latin''), Some (66, 66, ''Greek'')])
         ''Common'' 66 = ''Greek''
   \<and> (replicate MAX_UNICODE ''Common'')
         [65 := ''Latin'', 66 := ''Latin'', 67 := ''Latin'', 66 := ''Greek''] ! 66 = ''Greek''
   \<and> (replicate MAX_UNICODE ''Common'')
         [65 := ''Latin'', 66 := ''Latin'', 67 := ''Latin'', 66 := ''Greek''] ! 68 = ''Common''"
proof -
  let ?gv = "\<lambda>chardata :: string list. Inr (chardata ! 1) :: error + string"
  let ?f = "[''# Scripts\<newline>'', ''0041..0043 ; Latin # L&\<newline>'', ''0042 ; Greek\<newline>'']"
  let ?T = "(replicate MAX_UNICODE ''Common'')
              [65 := ''Latin'', 66 := ''Latin'', 67 := ''Latin'', 66 := ''Greek'']"
  have p1: "parse_line ?gv ''# Scripts\<newline>'' = Inr None"
    by (simp add: parse_line_def strip_def is_space_def Let_def)
  have p2: "parse_line ?gv ''0041..0043 ; Latin # L&\<newline>'' = Inr (Some (65, 67, ''Latin''))"
    by (simp add: parse_line_def strip_def is_space_def re_match_def is_hex_def int16_def
        hex_digit_def at_end_def Let_def)
  have p3: "parse_line ?gv ''0042 ; Greek\<newline>'' = Inr (Some (66, 66, ''Greek''))"
    by (simp add: parse_line_def strip_def is_space_def re_match_def is_hex_def int16_def
        hex_digit_def at_end_def Let_def)
  have ps: "map_err (parse_line ?gv) ?f = Inr [None, Some (65, 67, ''Latin''), Some (66, 66, ''Greek'')]"
    by (simp only: map_err.simps p1 p2 p3 sum.case)
  have r1: "range2 65 (67 + 1) = [65, 66, 67]" and r2: "range2 66 (66 + 1) = [66]"
    by (simp_all add: range2_def upt_rec)
  have big: "(65::int) < int MAX_UNICODE" "(66::int) < int MAX_UNICODE" "(67::int) < int MAX_UNICODE"
    by (simp_all add: MAX_UNICODE_def)
  have a1: "assign_loop (replicate MAX_UNICODE ''Common'') [65, 66, 67] ''Latin''
      = Inr ((replicate MAX_UNICODE ''Common'')[65 := ''Latin'', 66 := ''Latin'', 67 := ''Latin''])"
    using big by (simp add: setitem_def)
  have a2: "assign_loop ((replicate MAX_UNICODE ''Common'')[65 := ''Latin'', 66 := ''Latin'', 67 := ''Latin''])
      [66] ''Greek'' = Inr ?T"
    using big by (simp add: setitem_def)
  have run: "read_table ?f ?gv ''Common'' = Inr ?T"
    by (simp only: read_table_def read_loop.simps p1 p2 p3 r1 r2 a1 a2 sum.case option.case
        prod.case)
  have lw: "last_write (assignments [None, Some (65, 67, ''Latin''), Some (66, 66, ''Greek'')])
         ''Common'' 66 = ''Greek''"
    by (simp add: assignments_def last_write_def covering_def)
  have fit: "\<forall>a\<in>set (assignments [None, Some (65, 67, ''Latin''), Some (66, 66, ''Greek'')]).
      fst a \<le> fst (snd a) \<longrightarrow> fst (snd a) < int MAX_UNICODE"
    by (simp add: assignments_def MAX_UNICODE_def)
  have n: "(65::nat) < MAX_UNICODE" "(66::nat) < MAX_UNICODE" "(67::nat) < MAX_UNICODE"
      "(68::nat) < MAX_UNICODE"
    by (simp_all add: MAX_UNICODE_def)
  have v: "?T ! 66 = ''Greek''" "?T ! 68 = ''Common''"
    using n by simp_all
  from read_table_last_write [of ?f ?gv "''Common''"] ps fit
  have "\<exists>table. read_table ?f ?gv ''Common'' = Inr table"
    by blast
  with run ps big(3) lw v show ?thesis
    by simp
qed

subsection \<open>Independence of the order in which a dictionary is enumerated\<close>

lemma get_type_size_set:
  assumes "set t1 = set t2"
  shows "get_type_size t1 = get_type_size t2"
proof (cases "t1 = []")
  case True
  then have "t2 = []" using assms by simp
  with True show ?thesis by simp
next
  case False
  then have t2: "t2 \<noteq> []" using assms by auto
  show ?thesis
    unfolding get_type_size_loop [OF False] get_type_size_loop [OF t2] assms ..
qed

lemma column_set: "set (column i records) = (\<lambda>r. r ! i) ` set records"
  by (simp add: column_def)

lemma record_loop_perm:
  assumes "set xs = set ys" and "\<forall>r\<in>set xs. length r = N"
  shows "\<forall>i\<in>set ns. i < N \<Longrightarrow>
         record_loop xs (map int ns) sz st = record_loop ys (map int ns) sz st"
proof (induction ns arbitrary: sz st)
  case Nil
  show ?case by simp
next
  case (Cons n ns)
  have n: "n < N" and rest: "\<forall>i\<in>set ns. i < N"
    using Cons.prems by simp_all
  have lens: "\<forall>r\<in>set ys. length r = N"
    using assms by simp
  have ty: "get_type_size (column n xs) = get_type_size (column n ys)"
    by (rule get_type_size_set) (simp add: column_set assms(1))
  show ?case
    using Cons.IH [OF rest]
    by (simp add: column_slice [OF assms(2) n] column_slice [OF lens n] ty
        split: sum.splits prod.splits)
qed

lemma get_record_size_struct_perm:
  assumes "mset xs = mset ys" and "\<forall>r\<in>set xs. length r = N" and "0 < N"
  shows "get_record_size_struct xs = get_record_size_struct ys"
proof (cases "xs = []")
  case True
  then have "ys = []" using assms(1) by simp
  with True show ?thesis by simp
next
  case False
  then have ys: "ys \<noteq> []" using assms(1) by auto
  have set: "set xs = set ys"
    using assms(1) by (rule mset_eq_setD)
  have lens: "\<forall>r\<in>set ys. length r = N"
    using assms(2) set by simp
  have x0: "getitem xs 0 = Inr (hd xs)" "length (hd xs) = N"
    using False assms(2) by (cases xs; simp add: getitem_def)+
  have y0: "getitem ys 0 = Inr (hd ys)" "length (hd ys) = N"
    using ys lens by (cases ys; simp add: getitem_def)+
  have loop: "record_loop xs (range1 (int N)) 0 struct_header
      = record_loop ys (range1 (int N)) 0 struct_header"
    unfolding range1_def using record_loop_perm [OF set assms(2), of "[0..<N]"] by simp
  have c: "map_err (\<lambda>record. getitem record 0) xs = Inr (column 0 xs)"
    "map_err (\<lambda>record. getitem record 0) ys = Inr (column 0 ys)"
    using column_slice [OF assms(2,3)] column_slice [OF lens assms(3)] by simp_all
  have ty: "get_type_size (column 0 xs) = get_type_size (column 0 ys)"
    by (rule get_type_size_set) (simp add: column_set set)
  show ?thesis
    by (simp add: get_record_size_struct_def x0 y0 loop c ty split: sum.splits prod.splits)
qed

lemma sort_key_numbered:
  assumes "mset items = mset (numbered xs)"
  shows "sort_key snd items = numbered xs"
proof (rule properties_for_sort_key)
  show "mset (numbered xs) = mset items"
    using assms by simp
next
  show "sorted (map snd (numbered xs))"
    by (simp add: numbered_def sorted_map)
next
  fix k
  assume k: "k \<in> set (numbered xs)"
  have d: "distinct (map snd (numbered xs))"
    by (simp add: numbered_def distinct_map inj_on_def)
  then have d': "distinct (map snd items)"
    using assms by (metis distinct_map mset_eq_setD mset_map distinct_count_atmost_1 set_map
        mset_eq_imp_distinct_iff)
  have kin: "k \<in> set items"
    using k assms by (metis mset_eq_setD)
  have inj1: "inj_on snd (set (numbered xs))" and inj2: "inj_on snd (set items)"
    using d d' by (simp_all add: distinct_map)
  have "filter (\<lambda>x. snd k = snd x) (numbered xs) = filter (\<lambda>x. k = x) (numbered xs)"
    using inj1 k by (intro filter_cong) (auto dest: inj_onD)
  moreover have "filter (\<lambda>x. snd k = snd x) items = filter (\<lambda>x. k = x) items"
    using inj2 kin by (intro filter_cong) (auto dest: inj_onD)
  moreover have "mset (filter (\<lambda>x. k = x) (numbered xs)) = mset (filter (\<lambda>x. k = x) items)"
    using assms by simp
  moreover have "\<And>zs :: ('a \<times> int) list. filter (\<lambda>x. k = x) zs = replicate (count (mset zs) k) k"
    by (induct_tac zs) auto
  ultimately show "filter (\<lambda>x. snd k = snd x) (numbered xs) = filter (\<lambda>x. snd k = snd x) items"
    using assms by simp
qed

lemma test_record_size_passes: "test_record_size = Inr ()"
  by (simp add: test_record_size_def tests_def get_record_size_struct_def getitem_def
      range1_def get_type_size_def py_min_def py_max_def limits_def type_size_def upt_rec)

lemma zip_star_lengths: "\<forall>r\<in>set (zip_star tables). length r = length tables"
  by (simp add: zip_star_def)

lemma print_records_perm:
  assumes "mset items = mset (numbered xs)"
  shows "print_records items record_size = print_records (numbered xs) record_size"
proof -
  have "length items = length (numbered xs)"
    using assms by (rule mset_eq_length)
  moreover have "sort_key snd items = sort_key snd (numbered xs)"
    using sort_key_numbered [OF assms] sort_key_numbered [of "numbered xs" xs] by simp
  ultimately show ?thesis
    by (simp add: print_records_def)
qed

lemma nth_numbered: "i < length xs \<Longrightarrow> numbered xs ! i = (xs ! i, int i)"
  by (simp add: numbered_def)

lemma read_table_assignments:
  assumes "read_table f1 get_value d = Inr t1" and "read_table f2 get_value d = Inr t2"
    and "map_err (parse_line get_value) f1 = Inr ps1"
    and "map_err (parse_line get_value) f2 = Inr ps2"
    and "assignments ps1 = assignments ps2"
  shows "t1 = t2"
proof (rule nth_equalityI)
  have r1: "read_loop get_value f1 (replicate MAX_UNICODE d) = Inr t1"
    and r2: "read_loop get_value f2 (replicate MAX_UNICODE d) = Inr t2"
    using assms(1,2) by (simp_all add: read_table_def)
  have 1: "length t1 = MAX_UNICODE"
    "\<forall>c<MAX_UNICODE. t1 ! c = last_write (assignments ps1) d (int c)"
    using read_loop_result [OF r1] assms(3) by auto
  have 2: "length t2 = MAX_UNICODE"
    "\<forall>c<MAX_UNICODE. t2 ! c = last_write (assignments ps2) d (int c)"
    using read_loop_result [OF r2] assms(4) by auto
  show "length t1 = length t2"
    using 1(1) 2(1) by simp
  fix c
  assume "c < length t1"
  then show "t1 ! c = t2 ! c"
    using 1 2 assms(5) by simp
qed

lemma record_size_enum:
  assumes "\<forall>d. mset (enum1 d) = mset d" and "\<forall>d. mset (enum2 d) = mset d"
  shows "get_record_size_struct (map fst (enum1 (numbered (first_seen (zip_star [script, category, other_case])))))
      = get_record_size_struct (map fst (enum2 (numbered (first_seen (zip_star [script, category, other_case])))))"
proof -
  let ?rows = "zip_star [script, category, other_case]"
  let ?records = "numbered (first_seen ?rows)"
  have m1: "mset (enum1 ?records) = mset ?records" and m2: "mset (enum2 ?records) = mset ?records"
    using assms by simp_all
  have keys: "mset (map fst (enum1 ?records)) = mset (map fst (enum2 ?records))"
    using m1 m2 by simp
  have "set (enum1 ?records) = set ?records"
    using m1 by (rule mset_eq_setD)
  then have "set (map fst (enum1 ?records)) = set (map fst ?records)"
    by simp
  also have "\<dots> \<subseteq> set ?rows"
    by (auto simp add: numbered_def set_first_seen dest: set_zip_leftD)
  finally have sub: "set (map fst (enum1 ?records)) \<subseteq> set ?rows" .
  have "\<forall>r\<in>set ?rows. length r = 3"
    using zip_star_lengths [of "[script, category, other_case]"] by simp
  then have lens: "\<forall>r\<in>set (map fst (enum1 ?records)). length r = 3"
    using sub by blast
  show ?thesis
    using keys lens by (rule get_record_size_struct_perm) simp
qed


lemma main_script_enum:
  assumes "\<forall>d. mset (enum1 d) = mset d" and "\<forall>d. mset (enum2 d) = mset d"
  shows "main_script maxint enum1 script category other_case
           = main_script maxint enum2 script category other_case"
proof -
  let ?rows = "zip_star [script, category, other_case]"
  let ?records = "numbered (first_seen ?rows)"
  let ?table = "map (\<lambda>t. int (index_of t (first_seen ?rows))) ?rows"
  have comb: "combine_tables [script, category, other_case] = (?table, ?records)"
    by (rule combine_tables_rows)
  have m1: "mset (enum1 ?records) = mset ?records" and m2: "mset (enum2 ?records) = mset ?records"
    using assms by simp_all
  have size: "get_record_size_struct (map fst (enum1 ?records))
      = get_record_size_struct (map fst (enum2 ?records))"
    using assms by (rule record_size_enum)
  have print: "print_records (enum1 ?records) rs = print_records (enum2 ?records) rs" for rs
    using print_records_perm [OF m1] print_records_perm [OF m2] by simp
  have unf: "main_script maxint enum script category other_case =
     (case get_record_size_struct (map fst (enum ?records)) of Inl e \<Rightarrow> Inl e
      | Inr (record_size, record_struct) \<Rightarrow>
     (case optimum maxint ?table (int (length ?records)) record_size of Inl e \<Rightarrow> Inl e
      | Inr (min_size, min_stage1, min_stage2, min_block_size) \<Rightarrow>
          Inr (record_struct, print_records (enum ?records) record_size,
               min_stage1, min_stage2, min_block_size, min_size)))" for enum
    by (simp only: main_script_def test_record_size_passes comb sum.case prod.case)
  show ?thesis
  proof (cases "get_record_size_struct (map fst (enum2 ?records))")
    case (Inl e)
    then show ?thesis
      by (simp only: unf size sum.case)
  next
    case (Inr p)
    obtain rs st where p: "p = (rs, st)" by (cases p)
    show ?thesis
    proof (cases "optimum maxint ?table (int (length ?records)) rs")
      case (Inl e)
      then show ?thesis
        by (simp only: unf size Inr p sum.case prod.case)
    next
      case o: (Inr q)
      obtain m s1 s2 b where q: "q = (m, s1, s2, b)" by (cases q)
      show ?thesis
        by (simp only: unf size Inr p o q print sum.case prod.case)
    qed
  qed
qed

text \<open>
  C10. The result of the script does not depend on the order in which Python enumerates
  the record dictionary: for any two enumerations the text of the structure, the printed
  records, the two stages, the block size and the total size are the same. The records
  are printed in the order of their first-seen ids, the record printed at position \<open>i\<close>
  being the one with id \<open>i\<close>. Two files with the same assignments give the same table.
\<close>

theorem main_script_deterministic:
  assumes "\<forall>d. mset (enum1 d) = mset d" and "\<forall>d. mset (enum2 d) = mset d"
  shows "main_script maxint enum1 script category other_case
           = main_script maxint enum2 script category other_case
       \<and> sort_key snd (enum1 (snd (combine_tables [script, category, other_case])))
           = numbered (first_seen (zip_star [script, category, other_case]))
       \<and> (\<forall>i<length (first_seen (zip_star [script, category, other_case])).
             sort_key snd (enum1 (snd (combine_tables [script, category, other_case]))) ! i
               = (first_seen (zip_star [script, category, other_case]) ! i, int i))
       \<and> (\<forall>f1 f2 t1 t2 ps1 ps2.
             read_table f1 get_value d = Inr t1 \<and> read_table f2 get_value d = Inr t2
             \<and> map_err (parse_line get_value) f1 = Inr ps1
             \<and> map_err (parse_line get_value) f2 = Inr ps2
             \<and> assignments ps1 = assignments ps2 \<longrightarrow> t1 = t2)"
proof (intro conjI)
  let ?rows = "zip_star [script, category, other_case]"
  let ?records = "numbered (first_seen ?rows)"
  have comb: "snd (combine_tables [script, category, other_case]) = ?records"
    by (simp add: combine_tables_rows)
  have m1: "mset (enum1 ?records) = mset ?records"
    using assms by simp
  show "main_script maxint enum1 script category other_case
           = main_script maxint enum2 script category other_case"
    using assms by (rule main_script_enum)
  show sorted: "sort_key snd (enum1 (snd (combine_tables [script, category, other_case])))
           = numbered (first_seen ?rows)"
    unfolding comb using m1 by (rule sort_key_numbered)
  show "\<forall>i<length (first_seen ?rows).
             sort_key snd (enum1 (snd (combine_tables [script, category, other_case]))) ! i
               = (first_seen ?rows ! i, int i)"
    unfolding sorted by (simp add: nth_numbered)
  show "\<forall>f1 f2 t1 t2 ps1 ps2.
             read_table f1 get_value d = Inr t1 \<and> read_table f2 get_value d = Inr t2
             \<and> map_err (parse_line get_value) f1 = Inr ps1
             \<and> map_err (parse_line get_value) f2 = Inr ps2
             \<and> assignments ps1 = assignments ps2 \<longrightarrow> t1 = t2"
  proof (intro allI impI)
    fix f1 f2 t1 t2 ps1 ps2
    assume a: "read_table f1 get_value d = Inr t1 \<and> read_table f2 get_value d = Inr t2
             \<and> map_err (parse_line get_value) f1 = Inr ps1
             \<and> map_err (parse_line get_value) f2 = Inr ps2
             \<and> assignments ps1 = assignments ps2"
    then show "t1 = t2"
      using read_table_assignments [of f1 get_value d t1 f2 t2 ps1 ps2] by simp
  qed
qed


theorem main_script_deterministic_witness:
  "(\<forall>d :: (int list \<times> int) list. mset (rev d) = mset d)
   \<and> (\<forall>d :: (int list \<times> int) list. mset (id d) = mset d)
   \<and> main_script 2147483647 rev [5, 5, 5, 7] [1, 1, 2, 1] [0, 0, - 32, 0]
     = main_script 2147483647 id [5, 5, 5, 7] [1, 1, 2, 1] [0, 0, - 32, 0]
   \<and> map_sum id (fst \<circ> snd) (main_script 2147483647 id [5, 5, 5, 7] [1, 1, 2, 1] [0, 0, - 32, 0])
     = Inr [''const ucd_record _pcre_ucd_records[] = { /* 9 bytes, record size 3 */'',
            ''  {     5,      1,      0, }, /*   0 */'',
            ''  {     5,      2,    -32, }, /*   1 */'',
            ''  {     7,      1,      0, }, /*   2 */'',
            ''};\<newline>'']
   \<and> map_sum id (snd \<circ> snd) (main_script 2147483647 id [5, 5, 5, 7] [1, 1, 2, 1] [0, 0, - 32, 0])
     = Inr ([0], [0, 0, 1, 2], 32, 14)"
proof -
  have h1: "\<forall>d :: (int list \<times> int) list. mset (rev d) = mset d"
    by simp
  have h2: "\<forall>d :: (int list \<times> int) list. mset (id d) = mset d"
    by simp
  have comb: "combine_tables [[5, 5, 5, 7], [1, 1, 2, 1], [0, 0, - 32, 0 :: int]]
      = ([0, 0, 1, 2], [([5, 1, 0], 0), ([5, 2, - 32], 1), ([7, 1, 0], 2)])"
    by (simp add: combine_tables_def zip_star_def upt_rec)
  have size: "map_sum id fst (get_record_size_struct [[5, 1, 0], [5, 2, - 32], [7, 1, 0]]) = Inr 3"
    by (simp add: get_record_size_struct_def getitem_def range1_def
        get_type_size_def py_min_def py_max_def limits_def type_size_def upt_rec)
  then obtain st where size': "get_record_size_struct [[5, 1, 0], [5, 2, - 32], [7, 1, 0]] = Inr (3, st)"
    by (cases "get_record_size_struct [[5, 1, 0], [5, 2, - 32], [7, 1, 0]]") auto
  have ev: "evaluate [0, 0, 1, 2] 3 3 32 = Inr (14, [0], [0, 0, 1, 2])"
    "evaluate [0, 0, 1, 2] 3 3 64 = Inr (14, [0], [0, 0, 1, 2])"
    "evaluate [0, 0, 1, 2] 3 3 128 = Inr (14, [0], [0, 0, 1, 2])"
    "evaluate [0, 0, 1, 2] 3 3 256 = Inr (14, [0], [0, 0, 1, 2])"
    "evaluate [0, 0, 1, 2] 3 3 512 = Inr (14, [0], [0, 0, 1, 2])"
    by (simp_all add: evaluate_def compress_table_def range3_def upt_rec
        slice_def Let_def get_tables_size_def get_type_size_def py_min_def py_max_def
        limits_def type_size_def)
  have opt: "optimum 2147483647 [0, 0, 1, 2] 3 3 = Inr (14, [0], [0, 0, 1, 2], 32)"
    by (simp add: optimum_def block_sizes_list ev)
  have pr: "print_records [([5, 1, 0], 0), ([5, 2, - 32], 1), ([7, 1, 0], 2)] 3
      = [''const ucd_record _pcre_ucd_records[] = { /* 9 bytes, record size 3 */'',
            ''  {     5,      1,      0, }, /*   0 */'',
            ''  {     5,      2,    -32, }, /*   1 */'',
            ''  {     7,      1,      0, }, /*   2 */'',
            ''};\<newline>'']"
    by code_simp
  have run: "main_script 2147483647 id [5, 5, 5, 7] [1, 1, 2, 1] [0, 0, - 32, 0]
      = Inr (st, print_records [([5, 1, 0], 0), ([5, 2, - 32], 1), ([7, 1, 0], 2)] 3,
             [0], [0, 0, 1, 2], 32, 14)"
    by (simp add: main_script_def test_record_size_passes comb size' opt)
  have eq: "main_script 2147483647 rev [5, 5, 5, 7] [1, 1, 2, 1] [0, 0, - 32, 0]
     = main_script 2147483647 id [5, 5, 5, 7] [1, 1, 2, 1] [0, 0, - 32, 0]"
    by (rule main_script_deterministic [OF h1 h2, THEN conjunct1])
  have a: "map_sum id (fst \<circ> snd)
      (main_script 2147483647 id [5, 5, 5, 7] [1, 1, 2, 1] [0, 0, - 32, 0])
     = Inr [''const ucd_record _pcre_ucd_records[] = { /* 9 bytes, record size 3 */'',
            ''  {     5,      1,      0, }, /*   0 */'',
            ''  {     5,      2,    -32, }, /*   1 */'',
            ''  {     7,      1,      0, }, /*   2 */'',
            ''};\<newline>'']"
    unfolding run pr [symmetric] by simp
  have b: "map_sum id (snd \<circ> snd)
      (main_script 2147483647 id [5, 5, 5, 7] [1, 1, 2, 1] [0, 0, - 32, 0])
     = Inr ([0], [0, 0, 1, 2], 32, 14)"
    unfolding run by simp
  show ?thesis
    by (intro conjI h1 h2 eq a b)
qed

end
